theory Spec2Isabelle
  imports Main "HOL-Library.Sublist"
begin

section \<open>Strings and JavaScript values\<close>

text \<open>
  The program is JavaScript. Its strings are modelled as \<^typ>\<open>string\<close>; a character stands for
  one code unit below 256, so the white space and the line terminators of the regular
  expressions are those of that range. A value that may be \<open>undefined\<close>, \<open>null\<close> or not a
  string at all (the arguments of the validators, what a property lookup gives) is a
  \<open>jsval\<close>; \<open>JObj name\<close> is an object or a function, named by the property it was read from.
\<close>

abbreviation nl :: char where "nl \<equiv> CHR 0x0A"
abbreviation dq :: char where "dq \<equiv> CHR 0x22"
abbreviation sq :: char where "sq \<equiv> CHR 0x27"

datatype jsval = JUndefined | JNull | JBool bool | JNum int | JStr string | JObj string

fun truthy :: "jsval \<Rightarrow> bool" where
  "truthy JUndefined = False"
| "truthy JNull = False"
| "truthy (JBool b) = b"
| "truthy (JNum n) = (n \<noteq> 0)"
| "truthy (JStr s) = (s \<noteq> [])"
| "truthy (JObj name) = True"

fun is_string :: "jsval \<Rightarrow> bool" where
  "is_string (JStr s) = True"
| "is_string v = False"

text \<open>\<open>if (value)\<close> on a value that is a string or \<open>null\<close>.\<close>

fun truthy_opt :: "string option \<Rightarrow> bool" where
  "truthy_opt None = False"
| "truthy_opt (Some s) = (s \<noteq> [])"

definition endsWith :: "string \<Rightarrow> string \<Rightarrow> bool" where
  "endsWith s t = suffix t s"

section \<open>The regular expressions of the config file manager\<close>

text \<open>
  Every pattern of \<open>config-file-manager.js\<close> is a sequence of literals, greedy repetitions of
  one character class, at most one capture group \<open>([^"'\n]+)\<close> and \<open>$\<close>, optionally anchored
  by a leading \<open>^\<close>; all are used with the \<open>m\<close> flag or contain no anchor. The matcher below is
  the backtracking matcher of JavaScript on that fragment: a greedy repetition tries the
  longest run first and gives characters back one at a time.
\<close>

definition is_space :: "char \<Rightarrow> bool" where
  "is_space c = (c \<in> set [CHR 0x09, CHR 0x0A, CHR 0x0B, CHR 0x0C, CHR 0x0D, CHR 0x20, CHR 0xA0])"

definition is_lt :: "char \<Rightarrow> bool" where
  "is_lt c = (c \<in> set [CHR 0x0A, CHR 0x0D])"

datatype cls = Space | Quote | ValueChar | AnyChar

fun in_cls :: "cls \<Rightarrow> char \<Rightarrow> bool" where
  "in_cls Space c = is_space c"
| "in_cls Quote c = (c = dq \<or> c = sq)"
| "in_cls ValueChar c = (c \<noteq> dq \<and> c \<noteq> sq \<and> c \<noteq> nl)"
| "in_cls AnyChar c = (\<not> is_lt c)"

datatype atom = Lit string | Star cls | Plus cls | Opt cls | Grp cls | Eol

fun first_some :: "'a option list \<Rightarrow> 'a option" where
  "first_some [] = None"
| "first_some (Some x # xs) = Some x"
| "first_some (None # xs) = first_some xs"

definition run :: "cls \<Rightarrow> string \<Rightarrow> nat" where
  "run c s = length (takeWhile (in_cls c) s)"

text \<open>The lengths a greedy repetition tries, longest first: \<open>hi, hi - 1, ..., lo\<close>.\<close>

definition tries :: "nat \<Rightarrow> nat \<Rightarrow> nat list" where
  "tries lo hi = rev [lo..<Suc hi]"

text \<open>
  \<open>rmatch p s\<close> matches the atoms \<open>p\<close> at the start of \<open>s\<close>; the result is the text of the
  capture group (if the pattern has one) and the rest of \<open>s\<close> after the match.
\<close>

primrec rmatch :: "atom list \<Rightarrow> string \<Rightarrow> (string option \<times> string) option" where
  "rmatch [] s = Some (None, s)"
| "rmatch (a # as) s =
     (case a of
        Lit l \<Rightarrow> if prefix l s then rmatch as (drop (length l) s) else None
      | Star c \<Rightarrow> first_some (map (\<lambda>n. rmatch as (drop n s)) (tries 0 (run c s)))
      | Plus c \<Rightarrow> first_some (map (\<lambda>n. rmatch as (drop n s)) (tries 1 (run c s)))
      | Opt c \<Rightarrow> first_some (map (\<lambda>n. rmatch as (drop n s)) (tries 0 (min 1 (run c s))))
      | Grp c \<Rightarrow> first_some (map (\<lambda>n. map_option (\<lambda>(g, r). (Some (take n s), r)) (rmatch as (drop n s)))
                               (tries 1 (run c s)))
      | Eol \<Rightarrow> if s = [] \<or> is_lt (hd s) then rmatch as s else None)"

text \<open>
  A pattern is its atoms and whether it starts with \<open>^\<close>. With the \<open>m\<close> flag \<open>^\<close> holds at
  the start of the input and after a line terminator; \<open>bol\<close> says whether it holds at the
  current position.
\<close>

record regex =
  anchored :: bool
  atoms :: "atom list"

definition match_at :: "regex \<Rightarrow> bool \<Rightarrow> string \<Rightarrow> (string option \<times> string) option" where
  "match_at re bol s = (if anchored re \<and> \<not> bol then None else rmatch (atoms re) s)"

text \<open>\<open>String.prototype.match\<close> without the \<open>g\<close> flag: the leftmost match.\<close>

fun rsearch :: "regex \<Rightarrow> bool \<Rightarrow> string \<Rightarrow> (string option \<times> string) option" where
  "rsearch re bol [] = match_at re bol []"
| "rsearch re bol (c # cs) =
     (case match_at re bol (c # cs) of
        Some m \<Rightarrow> Some m
      | None \<Rightarrow> rsearch re (is_lt c) cs)"

text \<open>
  \<open>String.prototype.replace\<close> with the \<open>g\<close> flag and a constant replacement: every match,
  left to right, the search resuming where the last match ended (one character further
  after an empty match).
\<close>

function replace_all :: "regex \<Rightarrow> string \<Rightarrow> bool \<Rightarrow> string \<Rightarrow> string" where
  "replace_all re repl bol s =
     (case match_at re bol s of
        Some (g, rest) \<Rightarrow>
          if length rest < length s
          then repl @ replace_all re repl (is_lt (s ! (length s - length rest - 1))) rest
          else (case s of [] \<Rightarrow> repl | c # cs \<Rightarrow> repl @ c # replace_all re repl (is_lt c) cs)
      | None \<Rightarrow> (case s of [] \<Rightarrow> [] | c # cs \<Rightarrow> c # replace_all re repl (is_lt c) cs))"
  by pat_completeness auto
termination
  by (relation "measure (\<lambda>(re, repl, bol, s). length s)") auto

section \<open>The process and its file system\<close>

text \<open>
  The state the program reads and writes: the process environment, the text files by
  path, the platform and the home directory, the \<open>name\<close> of \<open>package.json\<close> (the file is not
  part of the sources), and the paths on which reading or writing a file throws.
\<close>

record state =
  env :: "string \<rightharpoonup> string"
  files :: "string \<rightharpoonup> string"
  platform :: string
  homedir :: string
  pkg_name :: string
  unreadable :: "string set"
  unwritable :: "string set"

text \<open>
  \<open>process.env[name]\<close>. The variables are own properties of \<open>process.env\<close>, always strings;
  a name that is no variable is looked up further along the prototype chain, where the
  properties of \<open>Object.prototype\<close> are found: functions, and for \<open>__proto__\<close> the prototype
  object itself.
\<close>

definition object_prototype :: "string list" where
  "object_prototype =
     [''constructor'', ''__defineGetter__'', ''__defineSetter__'', ''hasOwnProperty'',
      ''__lookupGetter__'', ''__lookupSetter__'', ''isPrototypeOf'', ''propertyIsEnumerable'',
      ''toString'', ''valueOf'', ''__proto__'', ''toLocaleString'']"

definition env_get :: "state \<Rightarrow> string \<Rightarrow> jsval" where
  "env_get st name =
     (case env st name of
        Some v \<Rightarrow> JStr v
      | None \<Rightarrow> if name \<in> set object_prototype then JObj name else JUndefined)"

definition existsSync :: "state \<Rightarrow> string \<Rightarrow> bool" where
  "existsSync st p = (files st p \<noteq> None)"

text \<open>\<open>path.basename\<close> and \<open>path.join\<close> on POSIX paths.\<close>

definition basename :: "string \<Rightarrow> string" where
  "basename p = rev (takeWhile (\<lambda>c. c \<noteq> CHR ''/'') (dropWhile (\<lambda>c. c = CHR ''/'') (rev p)))"

definition path_join :: "string \<Rightarrow> string \<Rightarrow> string" where
  "path_join d f = d @ ''/'' @ f"

section \<open>shell-detector.js\<close>

definition detectShell :: "state \<Rightarrow> string" where
  "detectShell st =
     (if truthy_opt (env st ''SHELL'') then basename (the (env st ''SHELL''))
      else if platform st = ''win32'' then ''cmd''
      else if platform st = ''darwin'' then ''zsh''
      else ''bash'')"

text \<open>\<open>shell || this.detectShell()\<close>: an empty shell name is detected again.\<close>

definition detected :: "state \<Rightarrow> string \<Rightarrow> string" where
  "detected st shell = (if shell \<noteq> [] then shell else detectShell st)"

text \<open>\<open>configFiles[detectedShell] || ['.profile']\<close>; the empty list of \<open>cmd\<close> is truthy.\<close>

definition configFiles :: "string \<Rightarrow> string list" where
  "configFiles sh =
     (if sh = ''bash'' then [''.bashrc'', ''.bash_profile'', ''.profile'']
      else if sh = ''zsh'' then [''.zshrc'', ''.zprofile'', ''.profile'']
      else if sh = ''fish'' then [''.config/fish/config.fish'']
      else if sh = ''cmd'' then []
      else if sh = ''powershell'' then [''Documents/PowerShell/profile.ps1'']
      else [''.profile''])"

definition getShellConfigPath :: "state \<Rightarrow> string \<Rightarrow> string" where
  "getShellConfigPath st shell =
     (let possibleFiles = configFiles (detected st shell)
      in case find (\<lambda>f. existsSync st (path_join (homedir st) f)) possibleFiles of
           Some f \<Rightarrow> path_join (homedir st) f
         | None \<Rightarrow> path_join (homedir st) (case possibleFiles of [] \<Rightarrow> ''.profile'' | f # fs \<Rightarrow> f))"

definition getAllShellConfigPaths :: "state \<Rightarrow> string \<Rightarrow> string list" where
  "getAllShellConfigPaths st shell = map (path_join (homedir st)) (configFiles (detected st shell))"

definition supportsEnvPersistence :: "state \<Rightarrow> string \<Rightarrow> bool" where
  "supportsEnvPersistence st shell = (detected st shell \<notin> set [''cmd''])"

definition getExportSyntax :: "state \<Rightarrow> string \<Rightarrow> string" where
  "getExportSyntax st shell =
     (let sh = detected st shell
      in if sh = ''bash'' then ''export''
         else if sh = ''zsh'' then ''export''
         else if sh = ''fish'' then ''set -gx''
         else if sh = ''cmd'' then ''set''
         else if sh = ''powershell'' then ''$env:''
         else ''export'')"

section \<open>config-file-manager.js\<close>

text \<open>
  The patterns are built by interpolating the variable name into the source of a regular
  expression. A name of letters, digits and underscores stands for itself there, and the
  model takes it as a literal; the theorems below are about such names.
\<close>

definition is_word :: "char \<Rightarrow> bool" where
  "is_word c = (c \<in> set ''ABCDEFGHIJKLMNOPQRSTUVWXYZabcdefghijklmnopqrstuvwxyz0123456789_'')"

definition name_ok :: "string \<Rightarrow> bool" where
  "name_ok n = (n \<noteq> [] \<and> (\<forall>c \<in> set n. is_word c))"

text \<open>
  \<open>patterns[shell] || patterns.bash\<close> of \<open>extractEnvVariable\<close>:
  \<^verbatim>\<open>bash, zsh:   ^\s*export\s+NAME=["']?([^"'\n]+)["']?\<close>,
  \<^verbatim>\<open>fish:        ^\s*set\s+-gx\s+NAME\s+["']?([^"'\n]+)["']?\<close>,
  \<^verbatim>\<open>powershell:  ^\s*\$env:NAME\s*=\s*["']?([^"'\n]+)["']?\<close>, all with flag \<open>m\<close>.
\<close>

definition extract_pattern :: "string \<Rightarrow> string \<Rightarrow> regex" where
  "extract_pattern variableName shell =
     (if shell = ''fish'' then
        \<lparr>anchored = True,
         atoms = [Star Space, Lit ''set'', Plus Space, Lit ''-gx'', Plus Space, Lit variableName,
                  Plus Space, Opt Quote, Grp ValueChar, Opt Quote]\<rparr>
      else if shell = ''powershell'' then
        \<lparr>anchored = True,
         atoms = [Star Space, Lit (''$env:'' @ variableName), Star Space, Lit ''='', Star Space,
                  Opt Quote, Grp ValueChar, Opt Quote]\<rparr>
      else
        \<lparr>anchored = True,
         atoms = [Star Space, Lit ''export'', Plus Space, Lit (variableName @ ''=''),
                  Opt Quote, Grp ValueChar, Opt Quote]\<rparr>)"

definition extractEnvVariable :: "string \<Rightarrow> string \<Rightarrow> string \<Rightarrow> string option" where
  "extractEnvVariable content variableName shell =
     (case rsearch (extract_pattern variableName shell) True content of
        Some (Some v, rest) \<Rightarrow> Some v
      | _ \<Rightarrow> None)"

text \<open>
  The patterns of the content transform \<open>removeEnvVariable(content, variableName, shell)\<close>:
  \<^verbatim>\<open>bash, zsh:   ^\s*export\s+NAME=.*$\<close>,
  \<^verbatim>\<open>fish:        ^\s*set\s+-gx\s+NAME\s+.*$\<close>,
  \<^verbatim>\<open>powershell:  ^\s*\$env:NAME\s*=.*$\<close>, all with flags \<open>gm\<close>; then
  \<^verbatim>\<open>\n\s*\n\s*\n\<close> with flag \<open>g\<close> is replaced by two newlines.
\<close>

definition remove_pattern :: "string \<Rightarrow> string \<Rightarrow> regex" where
  "remove_pattern variableName shell =
     (if shell = ''fish'' then
        \<lparr>anchored = True,
         atoms = [Star Space, Lit ''set'', Plus Space, Lit ''-gx'', Plus Space, Lit variableName,
                  Plus Space, Star AnyChar, Eol]\<rparr>
      else if shell = ''powershell'' then
        \<lparr>anchored = True,
         atoms = [Star Space, Lit (''$env:'' @ variableName), Star Space, Lit ''='', Star AnyChar, Eol]\<rparr>
      else
        \<lparr>anchored = True,
         atoms = [Star Space, Lit ''export'', Plus Space, Lit (variableName @ ''=''), Star AnyChar, Eol]\<rparr>)"

definition blank_lines :: regex where
  "blank_lines = \<lparr>anchored = False, atoms = [Lit [nl], Star Space, Lit [nl], Star Space, Lit [nl]]\<rparr>"

definition removeEnvVariable :: "string \<Rightarrow> string \<Rightarrow> string \<Rightarrow> string" where
  "removeEnvVariable content variableName shell =
     replace_all blank_lines [nl, nl] True
       (replace_all (remove_pattern variableName shell) [] True content)"

text \<open>
  \<open>readEnvVariable\<close>: \<open>process.env[variableName]\<close> first, returned as it is when truthy,
  then the candidate config files in order; a file that cannot be read is skipped (the
  \<open>catch\<close> only logs). The result is a string, \<open>null\<close>, or what the lookup in
  \<open>process.env\<close> found.
\<close>

fun read_paths :: "state \<Rightarrow> string \<Rightarrow> string \<Rightarrow> string list \<Rightarrow> string option" where
  "read_paths st variableName shell [] = None"
| "read_paths st variableName shell (configPath # ps) =
     (if existsSync st configPath \<and> configPath \<notin> unreadable st
         \<and> truthy_opt (extractEnvVariable (the (files st configPath)) variableName shell)
      then extractEnvVariable (the (files st configPath)) variableName shell
      else read_paths st variableName shell ps)"

definition readEnvVariable :: "state \<Rightarrow> string \<Rightarrow> jsval" where
  "readEnvVariable st variableName =
     (if truthy (env_get st variableName) then env_get st variableName
      else let shell = detectShell st
           in case read_paths st variableName shell (getAllShellConfigPaths st shell) of
                Some v \<Rightarrow> JStr v
              | None \<Rightarrow> JNull)"

definition hasEnvVariable :: "state \<Rightarrow> string \<Rightarrow> bool" where
  "hasEnvVariable st variableName = (readEnvVariable st variableName \<noteq> JNull)"

text \<open>The options object of \<open>writeEnvVariable\<close>; \<open>None\<close> is a property left out.\<close>

record write_options =
  opt_shell :: "string option"
  opt_comment :: "string option"
  opt_overwrite :: "bool option"

definition no_options :: write_options where
  "no_options = \<lparr>opt_shell = None, opt_comment = None, opt_overwrite = None\<rparr>"

definition exportLine :: "state \<Rightarrow> string \<Rightarrow> string \<Rightarrow> string \<Rightarrow> string" where
  "exportLine st shell variableName val =
     (let exportSyntax = getExportSyntax st shell
      in if shell = ''fish'' then exportSyntax @ '' '' @ variableName @ '' '' @ [dq] @ val @ [dq]
         else if shell = ''powershell'' then exportSyntax @ variableName @ '' = '' @ [dq] @ val @ [dq]
         else exportSyntax @ '' '' @ variableName @ ''='' @ [dq] @ val @ [dq])"

text \<open>
  \<open>writeEnvVariable\<close>. Creating the directory, reading and writing the file are inside one
  \<open>try\<close>; any of them throwing gives \<open>false\<close> with the file as it was.
\<close>

definition writeEnvVariable :: "state \<Rightarrow> string \<Rightarrow> string \<Rightarrow> write_options \<Rightarrow> bool \<times> state" where
  "writeEnvVariable st variableName val options =
     (let shell = (case opt_shell options of Some s \<Rightarrow> s | None \<Rightarrow> detectShell st);
          comment = (case opt_comment options of Some c \<Rightarrow> c | None \<Rightarrow> ''Added by '' @ pkg_name st);
          overwrite = (case opt_overwrite options of Some b \<Rightarrow> b | None \<Rightarrow> True)
      in if \<not> supportsEnvPersistence st shell then (False, st)
         else
           let configPath = getShellConfigPath st shell
           in if existsSync st configPath \<and> configPath \<in> unreadable st then (False, st)
              else
                let content = (case files st configPath of Some c \<Rightarrow> c | None \<Rightarrow> []);
                    existingValue = extractEnvVariable content variableName shell
                in if truthy_opt existingValue \<and> \<not> overwrite then (True, st)
                   else
                     let content' = (if truthy_opt existingValue
                                     then removeEnvVariable content variableName shell
                                     else content);
                         newContent = content'
                           @ (if content' \<noteq> [] \<and> \<not> endsWith content' [nl] then [nl] else [])
                           @ [nl] @ ''# '' @ comment @ [nl]
                           @ exportLine st shell variableName val @ [nl]
                     in if configPath \<in> unwritable st then (False, st)
                        else (True, st\<lparr>files := (files st)(configPath \<mapsto> newContent)\<rparr>))"

text \<open>
  The class body declares a second static method \<open>removeEnvVariable(variableName, options)\<close>
  that rewrites the config file (below). Both declarations have the same name on the same
  class, so the later one, the content transform, is the method the class ends up with:
  a call \<open>ConfigFileManager.removeEnvVariable(name)\<close> runs the transform with the name as
  \<open>content\<close> and \<open>undefined\<close> as variable name and shell, which interpolates the text
  \<open>undefined\<close> and falls back to the bash pattern.
\<close>

definition removeEnvVariable_file :: "state \<Rightarrow> string \<Rightarrow> string option \<Rightarrow> bool \<times> state" where
  "removeEnvVariable_file st variableName shell_option =
     (let shell = (case shell_option of Some s \<Rightarrow> s | None \<Rightarrow> detectShell st);
          configPath = getShellConfigPath st shell
      in if \<not> existsSync st configPath then (True, st)
         else if configPath \<in> unreadable st then (False, st)
         else
           let content = the (files st configPath);
               newContent = removeEnvVariable content variableName shell
           in if content \<noteq> newContent
              then (if configPath \<in> unwritable st then (False, st)
                    else (True, st\<lparr>files := (files st)(configPath \<mapsto> newContent)\<rparr>))
              else (True, st))"

definition removeEnvVariable_call :: "string \<Rightarrow> string" where
  "removeEnvVariable_call variableName = removeEnvVariable variableName ''undefined'' ''undefined''"

section \<open>validator.js\<close>

definition validateApiKey :: "jsval \<Rightarrow> bool" where
  "validateApiKey apiKey =
     (if \<not> truthy apiKey \<or> \<not> is_string apiKey then False
      else case apiKey of
             JStr k \<Rightarrow> if \<not> prefix ''PMAK-'' k then False
                       else if length k < 20 then False
                       else True
           | _ \<Rightarrow> False)"

text \<open>
  The UUID test \<^verbatim>\<open>/^[0-9a-f]{8}-[0-9a-f]{4}-[1-5][0-9a-f]{3}-[89ab][0-9a-f]{3}-[0-9a-f]{12}$/i\<close>.
\<close>

definition is_hex :: "char \<Rightarrow> bool" where
  "is_hex c = (c \<in> set ''0123456789abcdefABCDEF'')"

definition uuid_shape :: "string \<Rightarrow> bool" where
  "uuid_shape w =
     (length w = 36
      \<and> (\<forall>i < 36. if i \<in> {8, 13, 18, 23} then w ! i = CHR ''-''
                   else if i = 14 then w ! i \<in> set ''12345''
                   else if i = 19 then w ! i \<in> set ''89abAB''
                   else is_hex (w ! i)))"

definition validateWorkspaceId :: "jsval \<Rightarrow> bool" where
  "validateWorkspaceId workspaceId =
     (if \<not> truthy workspaceId \<or> \<not> is_string workspaceId then False
      else case workspaceId of JStr w \<Rightarrow> uuid_shape w | _ \<Rightarrow> False)"

section \<open>credential-storage.js\<close>

definition POSTMAN_API_KEY :: string where
  "POSTMAN_API_KEY = ''POSTMAN_API_KEY''"

definition POSTMAN_WORKSPACE_ID :: string where
  "POSTMAN_WORKSPACE_ID = ''POSTMAN_WORKSPACE_ID''"

definition storeApiKey :: "state \<Rightarrow> jsval \<Rightarrow> bool \<times> state" where
  "storeApiKey st apiKey =
     (if \<not> validateApiKey apiKey then (False, st)
      else case apiKey of
             JStr k \<Rightarrow>
               (case writeEnvVariable st POSTMAN_API_KEY k
                       \<lparr>opt_shell = None, opt_comment = Some ''Postman API Key for flowman-cli'',
                        opt_overwrite = Some True\<rparr> of
                  (success, st') \<Rightarrow>
                    if success then (True, st'\<lparr>env := (env st')(POSTMAN_API_KEY \<mapsto> k)\<rparr>)
                    else (False, st'))
           | _ \<Rightarrow> (False, st))"

definition getApiKey :: "state \<Rightarrow> jsval" where
  "getApiKey st = readEnvVariable st POSTMAN_API_KEY"

definition storeWorkspaceId :: "state \<Rightarrow> jsval \<Rightarrow> bool \<times> state" where
  "storeWorkspaceId st workspaceId =
     (if \<not> validateWorkspaceId workspaceId then (False, st)
      else case workspaceId of
             JStr w \<Rightarrow>
               (case writeEnvVariable st POSTMAN_WORKSPACE_ID w
                       \<lparr>opt_shell = None, opt_comment = Some ''Postman Workspace ID for flowman-cli'',
                        opt_overwrite = Some True\<rparr> of
                  (success, st') \<Rightarrow>
                    if success then (True, st'\<lparr>env := (env st')(POSTMAN_WORKSPACE_ID \<mapsto> w)\<rparr>)
                    else (False, st'))
           | _ \<Rightarrow> (False, st))"

definition getWorkspaceId :: "state \<Rightarrow> jsval" where
  "getWorkspaceId st = readEnvVariable st POSTMAN_WORKSPACE_ID"

definition hasApiKey :: "state \<Rightarrow> bool" where
  "hasApiKey st = hasEnvVariable st POSTMAN_API_KEY"

text \<open>
  \<open>clearCredentials\<close> calls \<open>ConfigFileManager.removeEnvVariable\<close> with one argument and
  tests what comes back for truthiness; what comes back is the string of
  \<open>removeEnvVariable_call\<close>.
\<close>

definition clearCredentials :: "state \<Rightarrow> bool \<times> state" where
  "clearCredentials st =
     (let apiKeyRemoved = removeEnvVariable_call POSTMAN_API_KEY;
          workspaceIdRemoved = removeEnvVariable_call POSTMAN_WORKSPACE_ID;
          st' = st\<lparr>env := (env st)(POSTMAN_API_KEY := None, POSTMAN_WORKSPACE_ID := None)\<rparr>
      in if apiKeyRemoved \<noteq> [] \<and> workspaceIdRemoved \<noteq> [] then (True, st')
         else if apiKeyRemoved \<noteq> [] \<or> workspaceIdRemoved \<noteq> [] then (True, st')
         else (False, st'))"

definition isAuthenticated :: "state \<Rightarrow> bool" where
  "isAuthenticated st = (hasApiKey st \<and> getApiKey st \<noteq> JNull)"

definition storeCredentials :: "state \<Rightarrow> jsval \<Rightarrow> jsval \<Rightarrow> bool \<times> state" where
  "storeCredentials st apiKey workspaceId =
     (let (success1, st1) = (if truthy apiKey then storeApiKey st apiKey else (True, st));
          (success2, st2) = (if truthy workspaceId
                             then (case storeWorkspaceId st1 workspaceId of
                                     (ok, s) \<Rightarrow> (ok \<and> success1, s))
                             else (success1, st1))
      in (success2, st2))"

section \<open>auth-manager.js\<close>

text \<open>
  The remote validation \<open>PostmanClient.validateApiKey\<close> is a collaborator outside the
  sources: a parameter \<open>remote\<close>, whose \<open>False\<close> also stands for a call that throws.
\<close>

definition validateCredentials :: "(jsval \<Rightarrow> bool) \<Rightarrow> state \<Rightarrow> bool" where
  "validateCredentials remote st =
     (let apiKey = getApiKey st
      in if \<not> truthy apiKey then False else remote apiKey)"

definition authenticateWithApiKey :: "(jsval \<Rightarrow> bool) \<Rightarrow> state \<Rightarrow> jsval \<Rightarrow> jsval \<Rightarrow> bool \<times> state" where
  "authenticateWithApiKey remote st apiKey workspaceId =
     (case storeCredentials st apiKey workspaceId of
        (success, st1) \<Rightarrow>
          if \<not> success then (False, st1)
          else if \<not> validateCredentials remote st1 then (False, snd (clearCredentials st1))
          else (True, st1))"

definition logout :: "state \<Rightarrow> bool \<times> state" where
  "logout st = clearCredentials st"

definition maskApiKey :: "string \<Rightarrow> string" where
  "maskApiKey apiKey =
     (if apiKey = [] \<or> length apiKey < 8 then ''****''
      else
        let start = take 8 apiKey;
            end' = drop (length apiKey - 4) apiKey;
            middle = replicate (nat (max 0 (int (length apiKey) - 12))) (CHR ''*'')
        in start @ middle @ end')"

section \<open>Vocabulary of the statements\<close>

text \<open>
  The shells with a line syntax of their own, names and values that the patterns can tell
  apart, and what \<open>writeEnvVariable\<close> reads and appends: the content of a file that may be
  absent, the comment it uses, the separating newline and the text it writes.
\<close>

definition supported :: "string \<Rightarrow> bool" where
  "supported sh = (sh \<in> set [''bash'', ''zsh'', ''fish'', ''powershell''])"

definition value_ok :: "string \<Rightarrow> bool" where
  "value_ok v = (v \<noteq> [] \<and> (\<forall>c \<in> set v. c \<noteq> dq \<and> c \<noteq> sq \<and> c \<noteq> nl))"


definition comment_ok :: "string \<Rightarrow> bool" where
  "comment_ok cm = (\<forall>c \<in> set cm. \<not> is_lt c)"

definition content_of :: "state \<Rightarrow> string \<Rightarrow> string" where
  "content_of st p = (case files st p of Some c \<Rightarrow> c | None \<Rightarrow> [])"

definition comment_of :: "state \<Rightarrow> write_options \<Rightarrow> string" where
  "comment_of st options = (case opt_comment options of Some c \<Rightarrow> c | None \<Rightarrow> ''Added by '' @ pkg_name st)"

definition sep :: "string \<Rightarrow> string" where
  "sep c = (if c \<noteq> [] \<and> \<not> endsWith c [nl] then [nl] else [])"

definition written :: "state \<Rightarrow> string \<Rightarrow> string \<Rightarrow> string \<Rightarrow> string \<Rightarrow> string \<Rightarrow> string" where
  "written st sh c cm n v = c @ sep c @ [nl] @ ''# '' @ cm @ [nl] @ exportLine st sh n v @ [nl]"

text \<open>
  The number of matches that \<open>replace_all\<close> replaces: with the removal pattern of a name,
  the number of assignment lines the program sees for that name.
\<close>

function count_all :: "regex \<Rightarrow> bool \<Rightarrow> string \<Rightarrow> nat" where
  "count_all re bol s =
     (case match_at re bol s of
        Some (g, rest) \<Rightarrow>
          if length rest < length s
          then Suc (count_all re (is_lt (s ! (length s - length rest - 1))) rest)
          else (case s of [] \<Rightarrow> 1 | c # cs \<Rightarrow> Suc (count_all re (is_lt c) cs))
      | None \<Rightarrow> (case s of [] \<Rightarrow> 0 | c # cs \<Rightarrow> count_all re (is_lt c) cs))"
  by pat_completeness auto
termination
  by (relation "measure (\<lambda>(re, bol, s). length s)") auto

text \<open>
  A process with \<open>SHELL=/bin/<sh>\<close> on Linux, home directory \<open>/home/u\<close>, no config file yet
  and nothing else in its environment.
\<close>

definition fresh :: "string \<Rightarrow> state" where
  "fresh sh = \<lparr>env = [''SHELL'' \<mapsto> ''/bin/'' @ sh], files = Map.empty, platform = ''linux'',
     homedir = ''/home/u'', pkg_name = ''flowman-cli'', unreadable = {}, unwritable = {}\<rparr>"

text \<open>
  A fish config file for the isolation of names, in which a line \<open>set -gx API_KEY\<close> without
  a value stands directly before the assignment line of \<open>API_KEY_SECONDARY\<close>.
\<close>

definition dangling :: string where
  "dangling = ''set -gx API_KEY'' @ [nl] @ ''set -gx API_KEY_SECONDARY '' @ [dq] @ ''s'' @ [dq, nl]"

text \<open>
  A partial assignment is a line that holds the keyword of the shell but no value: the
  keyword alone, or the keyword and the name with nothing after them. The white space in
  the patterns of the program also matches line breaks, so a match that starts on such a
  line runs on into the lines after it. \<open>partial_patterns\<close> are the patterns of those lines:
  \<^verbatim>\<open>^\s*export\s*$\<close> for bash and zsh,
  \<^verbatim>\<open>^\s*set\s*$\<close>, \<^verbatim>\<open>^\s*set\s+-gx\s*$\<close> and \<^verbatim>\<open>^\s*set\s+-gx\s+NAME\s*$\<close> for fish,
  \<^verbatim>\<open>^\s*\$env:NAME\s*$\<close> and \<^verbatim>\<open>^\s*\$env:NAME\s*=\s*$\<close> for powershell.
  A text has \<open>no_partial\<close> when none of them matches in it.
\<close>

definition partial_patterns :: "string \<Rightarrow> string \<Rightarrow> regex list" where
  "partial_patterns variableName shell =
     (if shell = ''fish'' then
        [\<lparr>anchored = True, atoms = [Star Space, Lit ''set'', Star Space, Eol]\<rparr>,
         \<lparr>anchored = True, atoms = [Star Space, Lit ''set'', Plus Space, Lit ''-gx'', Star Space, Eol]\<rparr>,
         \<lparr>anchored = True,
          atoms = [Star Space, Lit ''set'', Plus Space, Lit ''-gx'', Plus Space, Lit variableName,
                   Star Space, Eol]\<rparr>]
      else if shell = ''powershell'' then
        [\<lparr>anchored = True, atoms = [Star Space, Lit (''$env:'' @ variableName), Star Space, Eol]\<rparr>,
         \<lparr>anchored = True,
          atoms = [Star Space, Lit (''$env:'' @ variableName), Star Space, Lit ''='', Star Space, Eol]\<rparr>]
      else
        [\<lparr>anchored = True, atoms = [Star Space, Lit ''export'', Star Space, Eol]\<rparr>])"

definition no_partial :: "string \<Rightarrow> string \<Rightarrow> string \<Rightarrow> bool" where
  "no_partial variableName shell content =
     (\<forall>p \<in> set (partial_patterns variableName shell). rsearch p True content = None)"

text \<open>
  A bash config file that already mentions the name: in a comment, in the name of another
  variable and in an assignment written by hand; its last line has no line break.
\<close>

definition settled :: state where
  "settled = (fresh ''bash'')\<lparr>files := [''/home/u/.bashrc'' \<mapsto>
     ''# API_KEY of the team'' @ [nl] @ ''export API_KEY_SECONDARY='' @ [dq] @ ''s'' @ [dq, nl]
       @ ''  export API_KEY=old'' @ [nl] @ ''alias ll=ls'']\<rparr>"

text \<open>
  For the proofs: a literal without white space and without \<open>#\<close>, the atoms that may
  stand before the name in a pattern, whether \<open>^\<close> holds after a text, and a text in which
  a pattern finds nothing, whatever follows a \<open>#\<close> after it.
\<close>

definition plain :: "string \<Rightarrow> bool" where
  "plain l = (l \<noteq> [] \<and> (\<forall>c \<in> set l. \<not> is_space c \<and> c \<noteq> CHR ''#''))"

fun plain_atom :: "atom \<Rightarrow> bool" where
  "plain_atom (Lit l) = plain l"
| "plain_atom (Star c) = (c = Space)"
| "plain_atom (Plus c) = (c = Space)"
| "plain_atom a = False"

definition bol_after :: "bool \<Rightarrow> string \<Rightarrow> bool" where
  "bol_after bol u = (if u = [] then bol else is_lt (last u))"

definition quiet :: "regex \<Rightarrow> string \<Rightarrow> bool" where
  "quiet re u = (anchored re
     \<and> (\<forall>a t. suffix a u \<longrightarrow> t = [] \<or> hd t = CHR ''#'' \<longrightarrow> rmatch (atoms re) (a @ t) = None))"

text \<open>
  An atom that matches white space only, as those of the blank-line pattern.
\<close>

fun blank_atom :: "atom \<Rightarrow> bool" where
  "blank_atom (Lit l) = (\<forall>c \<in> set l. is_space c)"
| "blank_atom (Star c) = (c = Space)"
| "blank_atom a = False"

text \<open>
  For the proofs about whole files. \<open>reach p s\<close> are the rests that the atoms \<open>p\<close> can leave
  of \<open>s\<close>, whatever the order in which the matcher tries them: \<open>rmatch p s\<close> is \<open>None\<close> exactly
  when there is none. The head of a pattern is what it has between the leading white space
  and the value; \<open>cuts\<close> are the places where a head can be cut before white space, and a
  line is a \<open>partial_line\<close> when a cut of the head leaves nothing but white space of it.
  The \<open>bodies\<close> of a text are its lines that are not blank, without their leading white
  space. A body is \<open>live\<close> when the head of the removal pattern matches in it; a text is
  \<open>tidy\<close> when none of its bodies is a partial line, and \<open>inert\<close> when in addition none is
  live. \<open>kept\<close> is the text that \<open>writeEnvVariable\<close> keeps of a file.
\<close>

primrec reach :: "atom list \<Rightarrow> string \<Rightarrow> string set" where
  "reach [] s = {s}"
| "reach (a # as) s =
     (case a of
        Lit l \<Rightarrow> if prefix l s then reach as (drop (length l) s) else {}
      | Star c \<Rightarrow> (\<Union>k \<in> {0..run c s}. reach as (drop k s))
      | Plus c \<Rightarrow> (\<Union>k \<in> {1..run c s}. reach as (drop k s))
      | Opt c \<Rightarrow> (\<Union>k \<in> {0..min 1 (run c s)}. reach as (drop k s))
      | Grp c \<Rightarrow> (\<Union>k \<in> {1..run c s}. reach as (drop k s))
      | Eol \<Rightarrow> if s = [] \<or> is_lt (hd s) then reach as s else {})"

fun space_atom :: "atom \<Rightarrow> bool" where
  "space_atom (Star c) = (c = Space)"
| "space_atom (Plus c) = (c = Space)"
| "space_atom a = False"

fun cuts :: "atom list \<Rightarrow> atom list list" where
  "cuts [] = []"
| "cuts (a # as) = (if space_atom a then [[]] else []) @ map ((#) a) (cuts as)"

definition blank :: "string \<Rightarrow> bool" where
  "blank s = (\<forall>c \<in> set s. is_space c)"

definition line_end :: "string \<Rightarrow> bool" where
  "line_end rest = (rest = [] \<or> is_lt (hd rest))"

definition partial_line :: "atom list \<Rightarrow> string \<Rightarrow> bool" where
  "partial_line H b = (\<exists>H1 \<in> set (cuts H). \<exists>b' \<in> reach H1 b. blank b')"

fun nlstop :: "atom \<Rightarrow> bool" where
  "nlstop (Lit l) = (nl \<notin> set l)"
| "nlstop (Star c) = (\<not> in_cls c nl)"
| "nlstop (Plus c) = (\<not> in_cls c nl)"
| "nlstop (Opt c) = (\<not> in_cls c nl)"
| "nlstop (Grp c) = (\<not> in_cls c nl)"
| "nlstop Eol = False"

definition remove_head :: "string \<Rightarrow> string \<Rightarrow> atom list" where
  "remove_head n sh =
     (if sh = ''fish'' then [Lit ''set'', Plus Space, Lit ''-gx'', Plus Space, Lit n, Plus Space]
      else if sh = ''powershell'' then [Lit (''$env:'' @ n), Star Space, Lit ''='']
      else [Lit ''export'', Plus Space, Lit (n @ ''='')])"

definition extract_head :: "string \<Rightarrow> string \<Rightarrow> atom list" where
  "extract_head n sh = remove_head n sh @ (if sh = ''powershell'' then [Star Space] else [])"

definition body_ok :: "string \<Rightarrow> bool" where
  "body_ok b = (b \<noteq> [] \<and> \<not> is_space (hd b) \<and> (\<forall>c \<in> set b. \<not> is_lt c))"

function bodies :: "string \<Rightarrow> string list" where
  "bodies s =
     (let a = dropWhile is_space s
      in if a = [] then []
         else takeWhile (\<lambda>c. \<not> is_lt c) a # bodies (dropWhile (\<lambda>c. \<not> is_lt c) a))"
  by pat_completeness auto
termination
proof (relation "measure length")
  show "wf (measure length)" by simp
next
  fix s a :: string
  assume a: "a = dropWhile is_space s" "a \<noteq> []"
  then have "\<not> is_space (hd a)" using hd_dropWhile [of is_space s] by simp
  then have "\<not> is_lt (hd a)" by (auto simp: is_lt_def is_space_def)
  then have "length (dropWhile (\<lambda>c. \<not> is_lt c) a) < length a"
    using a(2) by (cases a) (auto intro: le_imp_less_Suc length_dropWhile_le)
  moreover have "length a \<le> length s" using a(1) by (simp add: length_dropWhile_le)
  ultimately show "(dropWhile (\<lambda>c. \<not> is_lt c) a, s) \<in> measure length" by simp
qed

definition live :: "string \<Rightarrow> string \<Rightarrow> string \<Rightarrow> bool" where
  "live n sh b = (reach (remove_head n sh) b \<noteq> {})"

definition tidy :: "string \<Rightarrow> string \<Rightarrow> string \<Rightarrow> bool" where
  "tidy n sh s = (\<forall>b \<in> set (bodies s). \<not> partial_line (extract_head n sh) b)"

definition inert :: "string \<Rightarrow> string \<Rightarrow> string \<Rightarrow> bool" where
  "inert n sh s = (\<forall>b \<in> set (bodies s). \<not> partial_line (extract_head n sh) b \<and> \<not> live n sh b)"


definition kept :: "string \<Rightarrow> string \<Rightarrow> string \<Rightarrow> string" where
  "kept c n sh = (if truthy_opt (extractEnvVariable c n sh) then removeEnvVariable c n sh else c)"

section \<open>The matcher\<close>

lemma first_some_map_None:
  "(\<And>x. x \<in> set xs \<Longrightarrow> f x = None) \<Longrightarrow> first_some (map f xs) = None"
  by (induction xs) auto

lemma first_some_map_SomeD:
  "first_some (map f xs) = Some r \<Longrightarrow> \<exists>x \<in> set xs. f x = Some r"
proof (induction xs)
  case Nil
  then show ?case by simp
next
  case (Cons a xs)
  then show ?case by (cases "f a") auto
qed

lemma set_tries [simp]: "set (tries lo hi) = {lo..hi}"
  by (auto simp: tries_def)

lemma tries_Cons: "lo \<le> hi \<Longrightarrow> tries lo hi = hi # rev [lo..<hi]"
  by (simp add: tries_def)

lemma first_some_tries_top:
  assumes "lo \<le> hi" and "\<And>n. lo \<le> n \<Longrightarrow> n < hi \<Longrightarrow> f n = None"
  shows "first_some (map f (tries lo hi)) = f hi"
proof (cases "f hi")
  case None
  have "first_some (map f (tries lo hi)) = None"
  proof (rule first_some_map_None)
    fix x assume "x \<in> set (tries lo hi)"
    then have "lo \<le> x" "x \<le> hi" by auto
    then show "f x = None" using assms(2) [of x] None by (cases "x = hi") auto
  qed
  then show ?thesis using None by simp
next
  case (Some r)
  then show ?thesis using assms(1) by (simp add: tries_Cons)
qed

lemma run_le_length: "run c s \<le> length s"
  by (simp add: run_def length_takeWhile_le)



lemma run_append_stop: "t = [] \<or> \<not> in_cls c (hd t) \<Longrightarrow> run c (a @ t) \<le> length a"
proof (induction a)
  case Nil
  then show ?case by (cases t) (auto simp: run_def)
next
  case (Cons y a)
  then show ?case by (simp add: run_def)
qed

lemma prefix_append_stop:
  "prefix l (a @ t) \<Longrightarrow> t = [] \<or> hd t \<notin> set l \<Longrightarrow> prefix l a"
proof (induction l arbitrary: a)
  case Nil
  then show ?case by simp
next
  case (Cons y l)
  show ?case
  proof (cases a)
    case Nil
    then show ?thesis using Cons.prems by (cases t) auto
  next
    case (Cons b a')
    then have "prefix l (a' @ t)" and "y = b" and "t = [] \<or> hd t \<notin> set l" using Cons.prems by auto
    then show ?thesis using Cons.IH [of a'] Cons by simp
  qed
qed

lemma rmatch_suffix: "rmatch p s = Some (g, r) \<Longrightarrow> suffix r s"
proof (induction p arbitrary: s g r)
  case Nil
  then show ?case by simp
next
  case (Cons a p)
  have step: "suffix r s" if "rmatch p (drop n s) = Some (g', r)" for n g'
    using suffix_order.trans [OF Cons.IH [OF that] suffix_drop] .
  show ?case
  proof (cases a)
    case (Lit l)
    then have "rmatch p (drop (length l) s) = Some (g, r)"
      using Cons.prems by (simp split: if_splits)
    then show ?thesis by (rule step)
  next
    case (Star c)
    then have "first_some (map (\<lambda>n. rmatch p (drop n s)) (tries 0 (run c s))) = Some (g, r)"
      using Cons.prems by simp
    from first_some_map_SomeD [OF this] obtain n where "rmatch p (drop n s) = Some (g, r)"
      by blast
    then show ?thesis by (rule step)
  next
    case (Plus c)
    then have "first_some (map (\<lambda>n. rmatch p (drop n s)) (tries 1 (run c s))) = Some (g, r)"
      using Cons.prems by simp
    from first_some_map_SomeD [OF this] obtain n where "rmatch p (drop n s) = Some (g, r)"
      by blast
    then show ?thesis by (rule step)
  next
    case (Opt c)
    then have "first_some (map (\<lambda>n. rmatch p (drop n s)) (tries 0 (min 1 (run c s)))) = Some (g, r)"
      using Cons.prems by simp
    from first_some_map_SomeD [OF this] obtain n where "rmatch p (drop n s) = Some (g, r)"
      by blast
    then show ?thesis by (rule step)
  next
    case (Grp c)
    then have "first_some (map (\<lambda>n. map_option (\<lambda>(g, r). (Some (take n s), r)) (rmatch p (drop n s)))
                 (tries 1 (run c s))) = Some (g, r)"
      using Cons.prems by simp
    from first_some_map_SomeD [OF this]
    obtain n where "map_option (\<lambda>(g, r). (Some (take n s), r)) (rmatch p (drop n s)) = Some (g, r)"
      by blast
    then obtain g' where "rmatch p (drop n s) = Some (g', r)" by auto
    then show ?thesis by (rule step)
  next
    case Eol
    then have "rmatch p s = Some (g, r)" using Cons.prems by (simp split: if_splits)
    then show ?thesis by (rule Cons.IH)
  qed
qed

lemma plain_no_hash: "plain l \<Longrightarrow> t = [] \<or> hd t = CHR ''#'' \<Longrightarrow> t = [] \<or> hd t \<notin> set l"
  by (auto simp: plain_def)

lemma sublist_trans: "sublist a b \<Longrightarrow> sublist b c \<Longrightarrow> sublist a c"
  by (rule sublist_order.order.trans)

text \<open>
  No match can start in a text that does not contain the name and is followed by nothing
  or by \<open>#\<close>.
\<close>

lemma rmatch_plain_head_None:
  assumes H: "\<forall>h \<in> set H. plain_atom h" and ln: "plain ln" and name: "sublist name ln"
    and u: "\<not> sublist name u" and t: "t = [] \<or> hd t = CHR ''#''"
  shows "suffix a u \<Longrightarrow> rmatch (H @ Lit ln # q) (a @ t) = None"
  using H
proof (induction H arbitrary: a)
  case Nil
  have "\<not> prefix ln (a @ t)"
  proof
    assume "prefix ln (a @ t)"
    then have "prefix ln a" using plain_no_hash [OF ln t] by (rule prefix_append_stop)
    then have "sublist ln a" by (rule prefix_imp_sublist)
    moreover have "sublist a u" using Nil.prems(1) by (rule suffix_imp_sublist)
    ultimately have "sublist name u" using name sublist_trans by blast
    then show False using u by simp
  qed
  then show ?case by simp
next
  case (Cons h H)
  have hs: "\<forall>h \<in> set H. plain_atom h" using Cons.prems(2) by simp
  have sp: "rmatch (H @ Lit ln # q) (drop n (a @ t)) = None"
    if "n \<le> run Space (a @ t)" for n
  proof -
    have "run Space (a @ t) \<le> length a"
      by (rule run_append_stop) (use t in \<open>auto simp: is_space_def\<close>)
    with that have n: "n \<le> length a" by simp
    have "suffix (drop n a) u"
      using suffix_order.trans [OF suffix_drop Cons.prems(1)] .
    then have "rmatch (H @ Lit ln # q) (drop n a @ t) = None"
      using hs by (rule Cons.IH)
    then show ?thesis using n by simp
  qed
  show ?case
  proof (cases h)
    case (Lit l)
    then have pl: "plain l" using Cons.prems(2) by simp
    show ?thesis
    proof (cases "prefix l (a @ t)")
      case True
      then have "prefix l a" using plain_no_hash [OF pl t] by (rule prefix_append_stop)
      then obtain a' where a': "a = l @ a'" by (auto simp: prefix_def)
      then have "suffix a' u" using Cons.prems(1) suffix_appendD by blast
      then have "rmatch (H @ Lit ln # q) (a' @ t) = None"
        using hs by (rule Cons.IH)
      then show ?thesis using Lit a' by simp
    next
      case False
      then show ?thesis using Lit by simp
    qed
  next
    case (Star c)
    then have c: "c = Space" using Cons.prems(2) by simp
    have "first_some (map (\<lambda>n. rmatch (H @ Lit ln # q) (drop n (a @ t)))
             (tries 0 (run Space (a @ t)))) = None"
      by (rule first_some_map_None, rule sp, simp)
    then show ?thesis using Star c by simp
  next
    case (Plus c)
    then have c: "c = Space" using Cons.prems(2) by simp
    have "first_some (map (\<lambda>n. rmatch (H @ Lit ln # q) (drop n (a @ t)))
             (tries 1 (run Space (a @ t)))) = None"
      by (rule first_some_map_None, rule sp, simp)
    then show ?thesis using Plus c by simp
  next
    case (Opt c)
    then show ?thesis using Cons.prems(2) by simp
  next
    case (Grp c)
    then show ?thesis using Cons.prems(2) by simp
  next
    case Eol
    then show ?thesis using Cons.prems(2) by simp
  qed
qed

lemma is_word_facts:
  "is_word c \<Longrightarrow> \<not> is_space c \<and> c \<noteq> CHR ''#'' \<and> c \<noteq> CHR ''='' \<and> \<not> is_lt c \<and> c \<noteq> dq \<and> c \<noteq> sq"
  by (auto simp: is_word_def is_space_def is_lt_def)

lemma name_ok_plain: "name_ok n \<Longrightarrow> plain n"
  by (auto simp: name_ok_def plain_def dest: is_word_facts)

lemma plain_append: "plain a \<Longrightarrow> plain b \<Longrightarrow> plain (a @ b)"
  by (auto simp: plain_def)

lemma plain_literals: "plain ''export''" "plain ''set''" "plain ''-gx''" "plain ''$env:''" "plain ''=''"
  by (simp_all add: plain_def is_space_def)

lemma no_match_before_hash_extract:
  assumes "name_ok n" and "\<not> sublist n u" and "suffix a u" and "t = [] \<or> hd t = CHR ''#''"
  shows "rmatch (atoms (extract_pattern n sh)) (a @ t) = None"
proof -
  have pn: "plain n" using assms(1) by (rule name_ok_plain)
  have sn: "sublist n n" by simp
  have pe: "plain (''$env:'' @ n)" using plain_literals(4) pn by (rule plain_append)
  have se: "sublist n (''$env:'' @ n)" by (rule sublist_append_leftI)
  have pq: "plain (n @ ''='')" using pn plain_literals(5) by (rule plain_append)
  have sq: "sublist n (n @ ''='')" by (rule sublist_append_rightI)
  have fish: "rmatch ([Star Space, Lit ''set'', Plus Space, Lit ''-gx'', Plus Space] @ Lit n
                # [Plus Space, Opt Quote, Grp ValueChar, Opt Quote]) (a @ t) = None"
    by (rule rmatch_plain_head_None [where name = n and u = u, OF _ pn sn assms(2,4,3)])
       (simp add: plain_literals)
  have ps: "rmatch ([Star Space] @ Lit (''$env:'' @ n)
                # [Star Space, Lit ''='', Star Space, Opt Quote, Grp ValueChar, Opt Quote])
              (a @ t) = None"
    by (rule rmatch_plain_head_None [where name = n and u = u, OF _ pe se assms(2,4,3)]) (simp add: plain_literals)
  have bash: "rmatch ([Star Space, Lit ''export'', Plus Space] @ Lit (n @ ''='')
                # [Opt Quote, Grp ValueChar, Opt Quote]) (a @ t) = None"
    by (rule rmatch_plain_head_None [where name = n and u = u, OF _ pq sq assms(2,4,3)]) (simp add: plain_literals)
  show ?thesis
    using fish ps bash by (simp add: extract_pattern_def)
qed

lemma no_match_before_hash_remove:
  assumes "name_ok n" and "\<not> sublist n u" and "suffix a u" and "t = [] \<or> hd t = CHR ''#''"
  shows "rmatch (atoms (remove_pattern n sh)) (a @ t) = None"
proof -
  have pn: "plain n" using assms(1) by (rule name_ok_plain)
  have sn: "sublist n n" by simp
  have pe: "plain (''$env:'' @ n)" using plain_literals(4) pn by (rule plain_append)
  have se: "sublist n (''$env:'' @ n)" by (rule sublist_append_leftI)
  have pq: "plain (n @ ''='')" using pn plain_literals(5) by (rule plain_append)
  have sq: "sublist n (n @ ''='')" by (rule sublist_append_rightI)
  have fish: "rmatch ([Star Space, Lit ''set'', Plus Space, Lit ''-gx'', Plus Space] @ Lit n
                # [Plus Space, Star AnyChar, Eol]) (a @ t) = None"
    by (rule rmatch_plain_head_None [where name = n and u = u, OF _ pn sn assms(2,4,3)])
       (simp add: plain_literals)
  have ps: "rmatch ([Star Space] @ Lit (''$env:'' @ n)
                # [Star Space, Lit ''='', Star AnyChar, Eol])
              (a @ t) = None"
    by (rule rmatch_plain_head_None [where name = n and u = u, OF _ pe se assms(2,4,3)]) (simp add: plain_literals)
  have bash: "rmatch ([Star Space, Lit ''export'', Plus Space] @ Lit (n @ ''='')
                # [Star AnyChar, Eol]) (a @ t) = None"
    by (rule rmatch_plain_head_None [where name = n and u = u, OF _ pq sq assms(2,4,3)]) (simp add: plain_literals)
  show ?thesis
    using fish ps bash by (simp add: remove_pattern_def)
qed

lemma rmatch_Lit:
  "rmatch (Lit l # as) s = (if prefix l s then rmatch as (drop (length l) s) else None)"
  by simp

lemma rmatch_Star:
  "rmatch (Star c # as) s = first_some (map (\<lambda>n. rmatch as (drop n s)) (tries 0 (run c s)))"
  by simp

lemma rmatch_Plus:
  "rmatch (Plus c # as) s = first_some (map (\<lambda>n. rmatch as (drop n s)) (tries 1 (run c s)))"
  by simp

lemma rmatch_Opt:
  "rmatch (Opt c # as) s = first_some (map (\<lambda>n. rmatch as (drop n s)) (tries 0 (min 1 (run c s))))"
  by simp

lemma rmatch_Grp:
  "rmatch (Grp c # as) s =
     first_some (map (\<lambda>n. map_option (\<lambda>(g, r). (Some (take n s), r)) (rmatch as (drop n s)))
                   (tries 1 (run c s)))"
  by simp

lemma rmatch_Eol:
  "rmatch (Eol # as) s = (if s = [] \<or> is_lt (hd s) then rmatch as s else None)"
  by simp

declare rmatch.simps(2) [simp del]

lemma first_some_tries_first:
  "lo \<le> hi \<Longrightarrow> f hi = Some r \<Longrightarrow> first_some (map f (tries lo hi)) = Some r"
  by (simp add: tries_Cons)

lemma run_Nil [simp]: "run c [] = 0"
  by (simp add: run_def)

lemma run_Cons: "run c (x # s) = (if in_cls c x then Suc (run c s) else 0)"
  by (simp add: run_def)

lemma run_all: "\<forall>x \<in> set v. in_cls c x \<Longrightarrow> (t = [] \<or> \<not> in_cls c (hd t)) \<Longrightarrow> run c (v @ t) = length v"
proof (induction v)
  case Nil
  then show ?case by (cases t) (auto simp: run_Cons)
next
  case (Cons a v)
  then show ?case by (simp add: run_Cons)
qed

lemma tries_0_0 [simp]: "tries 0 0 = [0]"
  by (simp add: tries_def)

lemma tries_1_0 [simp]: "tries (Suc 0) 0 = []"
  by (simp add: tries_def)

lemma tries_1_1 [simp]: "tries (Suc 0) (Suc 0) = [Suc 0]"
  by (simp add: tries_def)

lemma tries_0_1 [simp]: "tries 0 (Suc 0) = [Suc 0, 0]"
  by (simp add: tries_def)

lemma opt_quote_close: "rmatch [Opt Quote] (dq # rest) = Some (None, rest)"
  by (simp add: rmatch_Opt run_Cons)

lemma value_group:
  assumes "v \<noteq> []" and "\<forall>c \<in> set v. in_cls ValueChar c"
  shows "rmatch [Grp ValueChar, Opt Quote] (v @ dq # rest) = Some (Some v, rest)"
proof -
  have r: "run ValueChar (v @ dq # rest) = length v"
    using assms(2) by (intro run_all) simp_all
  have "first_some (map (\<lambda>n. map_option (\<lambda>(g, r). (Some (take n (v @ dq # rest)), r))
               (rmatch [Opt Quote] (drop n (v @ dq # rest)))) (tries 1 (length v)))
        = Some (Some v, rest)"
    by (rule first_some_tries_first) (use assms(1) in \<open>simp_all add: opt_quote_close Suc_le_eq\<close>)
  then show ?thesis using r by (simp add: rmatch_Grp)
qed

lemma value_ok_cls: "value_ok v \<Longrightarrow> v \<noteq> [] \<and> (\<forall>c \<in> set v. in_cls ValueChar c)"
  by (auto simp: value_ok_def is_lt_def)

lemma quoted_value:
  assumes "value_ok v"
  shows "rmatch [Opt Quote, Grp ValueChar, Opt Quote] (dq # v @ dq # rest) = Some (Some v, rest)"
  using value_group [of v rest] value_ok_cls [OF assms]
  by (simp add: rmatch_Opt run_Cons)

lemma quoted_empty:
  "rmatch [Opt Quote, Grp ValueChar, Opt Quote] (dq # dq # rest) = None"
  by (simp add: rmatch_Opt rmatch_Grp run_Cons)

lemma any_to_eol:
  assumes "\<forall>c \<in> set x. \<not> is_lt c" and "rest = [] \<or> is_lt (hd rest)"
  shows "rmatch [Star AnyChar, Eol] (x @ rest) = Some (None, rest)"
proof -
  have r: "run AnyChar (x @ rest) = length x"
    using assms by (intro run_all) auto
  have "first_some (map (\<lambda>n. rmatch [Eol] (drop n (x @ rest))) (tries 0 (length x))) = Some (None, rest)"
    by (rule first_some_tries_first) (use assms(2) in \<open>auto simp: rmatch_Eol\<close>)
  then show ?thesis using r by (simp add: rmatch_Star)
qed

lemma run_nth: "n < run c s \<Longrightarrow> n < length s \<and> in_cls c (s ! n)"
proof -
  assume n: "n < run c s"
  then have "takeWhile (in_cls c) s ! n = s ! n" by (simp add: run_def takeWhile_nth)
  moreover have "takeWhile (in_cls c) s ! n \<in> set (takeWhile (in_cls c) s)"
    using n by (simp add: run_def)
  ultimately have "in_cls c (s ! n)" by (auto dest: set_takeWhileD)
  moreover have "n < length s" using n run_le_length [of c s] by simp
  ultimately show ?thesis by simp
qed

lemma drop_run: "drop (run c s) s = dropWhile (in_cls c) s"
  by (simp add: run_def dropWhile_eq_drop)

lemma in_cls_Space: "in_cls Space = is_space"
  by (rule ext) simp

lemma drop_run_space: "drop (run Space s) s = dropWhile is_space s"
  using drop_run [of Space s] by (simp add: in_cls_Space)

lemma lit_after_class:
  assumes "l \<noteq> []" and "\<not> in_cls c (hd l)" and "n < run c s"
  shows "rmatch (Lit l # as) (drop n s) = None"
proof -
  from run_nth [OF assms(3)] have "n < length s" and "in_cls c (s ! n)" by simp_all
  then have "drop n s = s ! n # drop (Suc n) s" by (simp add: Cons_nth_drop_Suc)
  then have "\<not> prefix l (drop n s)"
    using assms(1,2) \<open>in_cls c (s ! n)\<close> by (cases l) auto
  then show ?thesis by (simp add: rmatch_Lit)
qed

lemma star_space_lit:
  assumes "l \<noteq> []" and "\<not> is_space (hd l)"
  shows "rmatch (Star Space # Lit l # as) s = rmatch (Lit l # as) (dropWhile is_space s)"
proof -
  have "first_some (map (\<lambda>n. rmatch (Lit l # as) (drop n s)) (tries 0 (run Space s)))
        = rmatch (Lit l # as) (drop (run Space s) s)"
    by (rule first_some_tries_top) (use assms in \<open>auto intro: lit_after_class [where c = Space]\<close>)
  then show ?thesis using drop_run_space [of s] by (simp add: rmatch_Star) 
qed

lemma plus_space_lit:
  assumes "l \<noteq> []" and "\<not> is_space (hd l)"
  shows "rmatch (Plus Space # Lit l # as) s =
           (if s \<noteq> [] \<and> is_space (hd s) then rmatch (Lit l # as) (dropWhile is_space s) else None)"
proof (cases "s \<noteq> [] \<and> is_space (hd s)")
  case True
  then have "1 \<le> run Space s" by (cases s) (auto simp: run_Cons)
  then have "first_some (map (\<lambda>n. rmatch (Lit l # as) (drop n s)) (tries 1 (run Space s)))
        = rmatch (Lit l # as) (drop (run Space s) s)"
    by (rule first_some_tries_top) (use assms in \<open>auto intro: lit_after_class [where c = Space]\<close>)
  then show ?thesis using True drop_run_space [of s] by (simp add: rmatch_Plus) 
next
  case False
  then have "run Space s = 0" by (cases s) (auto simp: run_Cons)
  then show ?thesis using False by (auto simp: rmatch_Plus)
qed

lemma name_ok_hd: "name_ok n \<Longrightarrow> n \<noteq> [] \<and> \<not> is_space (hd n)"
  by (cases n) (auto simp: name_ok_def dest: is_word_facts)

lemma dropWhile_name: "name_ok n \<Longrightarrow> dropWhile is_space (n @ t) = n @ t"
  by (cases n) (auto simp: name_ok_def dest: is_word_facts)

lemma exportLine_supported:
  "supported sh \<Longrightarrow> exportLine st sh n v =
     (if sh = ''fish'' then ''set -gx '' @ n @ '' '' @ dq # v @ [dq]
      else if sh = ''powershell'' then ''$env:'' @ n @ '' = '' @ dq # v @ [dq]
      else ''export '' @ n @ ''='' @ dq # v @ [dq])"
  by (auto simp: supported_def exportLine_def getExportSyntax_def detected_def)

lemma line_extract:
  assumes "supported sh" and "name_ok n" and "value_ok v"
  shows "rmatch (atoms (extract_pattern n sh)) (exportLine st sh n v @ rest) = Some (Some v, rest)"
proof -
  note hd = name_ok_hd [OF assms(2)]
  note q = quoted_value [OF assms(3), of rest]
  have fish: "rmatch (atoms (extract_pattern n ''fish'')) (''set -gx '' @ n @ '' '' @ dq # v @ [dq] @ rest)
      = Some (Some v, rest)"
    using hd q
    by (simp add: extract_pattern_def star_space_lit plus_space_lit rmatch_Lit is_space_def
          dropWhile_name [OF assms(2)] rmatch_Plus [of Space "Opt Quote # as" for as] run_Cons)
  have ps: "rmatch (atoms (extract_pattern n ''powershell'')) (''$env:'' @ n @ '' = '' @ dq # v @ [dq] @ rest)
      = Some (Some v, rest)"
    using hd q
    by (simp add: extract_pattern_def star_space_lit rmatch_Lit is_space_def
          rmatch_Star [of Space "Opt Quote # as" for as] run_Cons)
  have bash: "sh \<noteq> ''fish'' \<Longrightarrow> sh \<noteq> ''powershell'' \<Longrightarrow>
     rmatch (atoms (extract_pattern n sh)) (''export '' @ n @ ''='' @ dq # v @ [dq] @ rest)
      = Some (Some v, rest)"
    using hd q
    by (simp add: extract_pattern_def star_space_lit plus_space_lit rmatch_Lit is_space_def
          dropWhile_name [OF assms(2)])
  show ?thesis
    using fish ps bash by (simp add: exportLine_supported [OF assms(1)])
qed


text \<open>An assignment line with an empty value is not matched under bash, zsh and fish.\<close>

lemma line_empty_value:
  assumes "supported sh" and "sh \<noteq> ''powershell''" and "name_ok n"
  shows "rmatch (atoms (extract_pattern n sh)) (exportLine st sh n [] @ rest) = None"
proof -
  note hd = name_ok_hd [OF assms(3)]
  note q = quoted_empty [of rest]
  have fish: "rmatch (atoms (extract_pattern n ''fish'')) (''set -gx '' @ n @ '' '' @ dq # [] @ [dq] @ rest)
      = None"
    using hd q
    by (simp add: extract_pattern_def star_space_lit plus_space_lit rmatch_Lit is_space_def
          dropWhile_name [OF assms(3)] rmatch_Plus [of Space "Opt Quote # as" for as] run_Cons)
  have bash: "sh \<noteq> ''fish'' \<Longrightarrow> sh \<noteq> ''powershell'' \<Longrightarrow>
     rmatch (atoms (extract_pattern n sh)) (''export '' @ n @ ''='' @ dq # [] @ [dq] @ rest) = None"
    using hd q
    by (simp add: extract_pattern_def star_space_lit plus_space_lit rmatch_Lit is_space_def
          dropWhile_name [OF assms(3)])
  show ?thesis
    using fish bash assms(2) by (simp add: exportLine_supported [OF assms(1)])
qed

text \<open>The patterns of one name do not match the assignment line of another name.\<close>

lemma prefix_names:
  assumes "name_ok n1" and "name_ok n2" and "n1 \<noteq> n2" and "prefix n1 (n2 @ x # t)" and "\<not> is_word x"
  shows "\<exists>y ys. n2 = n1 @ y # ys \<and> is_word y"
proof -
  have "x \<notin> set n1" using assms(1,5) by (auto simp: name_ok_def)
  with assms(4) have "prefix n1 n2" by (intro prefix_append_stop [of n1 n2 "x # t"]) simp_all
  then obtain r where r: "n2 = n1 @ r" by (auto simp: prefix_def)
  with assms(3) have "r \<noteq> []" by auto
  then obtain y ys where "r = y # ys" by (cases r) auto
  then show ?thesis using r assms(2) by (auto simp: name_ok_def)
qed

lemma line_other_name:
  assumes "supported sh" and "name_ok n1" and "name_ok n2" and "n1 \<noteq> n2"
  shows "rmatch (atoms (extract_pattern n1 sh)) (exportLine st sh n2 v @ rest) = None"
    and "rmatch (atoms (remove_pattern n1 sh)) (exportLine st sh n2 v @ rest) = None"
proof -
  note hd = name_ok_hd [OF assms(2)]
  have nw: "\<not> is_word (CHR ''='')" "\<not> is_word (CHR '' '')" by (simp_all add: is_word_def)
  have bash: "\<not> prefix (n1 @ ''='') (n2 @ ''='' @ t)" for t
  proof
    assume p: "prefix (n1 @ ''='') (n2 @ ''='' @ t)"
    then have "prefix n1 (n2 @ CHR ''='' # t)" by (auto simp: prefix_def)
    from prefix_names [OF assms(2,3,4) this nw(1)]
    obtain y ys where y: "n2 = n1 @ y # ys" "is_word y" by blast
    with p have "y = CHR ''=''" by simp
    with y(2) nw(1) show False by simp
  qed
  have fish: "rmatch (Lit n1 # Plus Space # as) (n2 @ CHR '' '' # t) = None" for as t
  proof (cases "prefix n1 (n2 @ CHR '' '' # t)")
    case True
    from prefix_names [OF assms(2,3,4) this nw(2)]
    obtain y ys where y: "n2 = n1 @ y # ys" "is_word y" by blast
    then have "\<not> is_space y" by (auto dest: is_word_facts)
    then show ?thesis using y(1) by (simp add: rmatch_Lit rmatch_Plus run_Cons)
  next
    case False
    then show ?thesis by (simp add: rmatch_Lit)
  qed
  have ps: "rmatch (Lit (''$env:'' @ n1) # Star Space # Lit ''='' # as) (''$env:'' @ n2 @ CHR '' '' # t) = None"
    for as t
  proof (cases "prefix n1 (n2 @ CHR '' '' # t)")
    case True
    from prefix_names [OF assms(2,3,4) this nw(2)]
    obtain y ys where y: "n2 = n1 @ y # ys" "is_word y" by blast
    then have "\<not> is_space y" "y \<noteq> CHR ''=''" by (auto dest: is_word_facts)
    moreover have "rmatch (Star Space # Lit ''='' # as) s = rmatch (Lit ''='' # as) (dropWhile is_space s)" for s
      by (rule star_space_lit) (simp_all add: is_space_def)
    ultimately show ?thesis using y(1) by (simp add: rmatch_Lit)
  next
    case False
    then show ?thesis by (simp add: rmatch_Lit)
  qed
  show "rmatch (atoms (extract_pattern n1 sh)) (exportLine st sh n2 v @ rest) = None"
    using hd bash fish ps
    by (simp add: exportLine_supported [OF assms(1)] extract_pattern_def star_space_lit
          plus_space_lit is_space_def dropWhile_name [OF assms(3)] rmatch_Lit [of "n1 @ ''=''"]
          rmatch_Lit [of "''export''"] rmatch_Lit [of "''set''"] rmatch_Lit [of "''-gx''"])
  show "rmatch (atoms (remove_pattern n1 sh)) (exportLine st sh n2 v @ rest) = None"
    using hd bash fish ps
    by (simp add: exportLine_supported [OF assms(1)] remove_pattern_def star_space_lit
          plus_space_lit is_space_def dropWhile_name [OF assms(3)] rmatch_Lit [of "n1 @ ''=''"]
          rmatch_Lit [of "''export''"] rmatch_Lit [of "''set''"] rmatch_Lit [of "''-gx''"])
qed

declare replace_all.simps [simp del] count_all.simps [simp del]

lemma replace_all_Nil: "replace_all re repl bol [] = (case match_at re bol [] of Some m \<Rightarrow> repl | None \<Rightarrow> [])"
  by (subst replace_all.simps) (auto split: option.splits)

lemma replace_all_no_match:
  "match_at re bol (c # cs) = None \<Longrightarrow> replace_all re repl bol (c # cs) = c # replace_all re repl (is_lt c) cs"
  by (subst replace_all.simps) simp


lemma count_all_no_match:
  "match_at re bol (c # cs) = None \<Longrightarrow> count_all re bol (c # cs) = count_all re (is_lt c) cs"
  by (subst count_all.simps) simp

lemma rsearch_skip:
  assumes "\<And>a. suffix a u \<Longrightarrow> a \<noteq> [] \<Longrightarrow> rmatch (atoms re) (a @ t) = None"
  shows "rsearch re bol (u @ t) = rsearch re (bol_after bol u) t"
  using assms
proof (induction u arbitrary: bol)
  case Nil
  then show ?case by (simp add: bol_after_def)
next
  case (Cons x u)
  have "rmatch (atoms re) ((x # u) @ t) = None" by (rule Cons.prems) simp_all
  then have m: "match_at re bol (x # u @ t) = None" by (simp add: match_at_def)
  have "rsearch re (is_lt x) (u @ t) = rsearch re (bol_after (is_lt x) u) t"
    by (rule Cons.IH) (simp add: Cons.prems suffix_Cons)
  then show ?case using m by (simp add: bol_after_def)
qed

lemma replace_all_skip:
  assumes "\<And>a. suffix a u \<Longrightarrow> a \<noteq> [] \<Longrightarrow> rmatch (atoms re) (a @ t) = None"
  shows "replace_all re repl bol (u @ t) = u @ replace_all re repl (bol_after bol u) t"
  using assms
proof (induction u arbitrary: bol)
  case Nil
  then show ?case by (simp add: bol_after_def)
next
  case (Cons x u)
  have "rmatch (atoms re) ((x # u) @ t) = None" by (rule Cons.prems) simp_all
  then have m: "match_at re bol (x # u @ t) = None" by (simp add: match_at_def)
  have "replace_all re repl (is_lt x) (u @ t) = u @ replace_all re repl (bol_after (is_lt x) u) t"
    by (rule Cons.IH) (simp add: Cons.prems suffix_Cons)
  then show ?case using m by (simp add: bol_after_def replace_all_no_match)
qed

lemma count_all_skip:
  assumes "\<And>a. suffix a u \<Longrightarrow> a \<noteq> [] \<Longrightarrow> rmatch (atoms re) (a @ t) = None"
  shows "count_all re bol (u @ t) = count_all re (bol_after bol u) t"
  using assms
proof (induction u arbitrary: bol)
  case Nil
  then show ?case by (simp add: bol_after_def)
next
  case (Cons x u)
  have "rmatch (atoms re) ((x # u) @ t) = None" by (rule Cons.prems) simp_all
  then have m: "match_at re bol (x # u @ t) = None" by (simp add: match_at_def)
  have "count_all re (is_lt x) (u @ t) = count_all re (bol_after (is_lt x) u) t"
    by (rule Cons.IH) (simp add: Cons.prems suffix_Cons)
  then show ?case using m by (simp add: bol_after_def count_all_no_match)
qed

text \<open>Inside a line an anchored pattern is not tried.\<close>

lemma rsearch_inside:
  "anchored re \<Longrightarrow> \<forall>c \<in> set u. \<not> is_lt c \<Longrightarrow> rsearch re False (u @ t) = rsearch re False t"
  by (induction u) (simp_all add: match_at_def)

lemma count_all_inside:
  "anchored re \<Longrightarrow> \<forall>c \<in> set u. \<not> is_lt c \<Longrightarrow> count_all re False (u @ t) = count_all re False t"
  by (induction u) (simp_all add: match_at_def count_all_no_match)



lemma pattern_anchored [simp]:
  "anchored (extract_pattern n sh)" "anchored (remove_pattern n sh)"
  by (simp_all add: extract_pattern_def remove_pattern_def)

lemma quiet_patterns:
  assumes "name_ok n" and "\<not> sublist n u"
  shows "quiet (extract_pattern n sh) u" and "quiet (remove_pattern n sh) u"
  using no_match_before_hash_extract [OF assms] no_match_before_hash_remove [OF assms]
  by (simp_all add: quiet_def)

lemma quiet_match_at: "quiet re u \<Longrightarrow> suffix a u \<Longrightarrow> t = [] \<or> hd t = CHR ''#'' \<Longrightarrow> match_at re b (a @ t) = None"
  by (auto simp: quiet_def match_at_def)

lemma search_block:
  assumes q: "quiet re u" and cm: "comment_ok cm"
  shows "rsearch re bol (u @ ''# '' @ cm @ [nl] @ s) = rsearch re True s"
proof -
  let ?t = "CHR ''#'' # CHR '' '' # cm @ nl # s"
  have an: "anchored re" using q by (simp add: quiet_def)
  have "rsearch re bol (u @ ?t) = rsearch re (bol_after bol u) ?t"
    by (rule rsearch_skip) (use q in \<open>simp add: quiet_def\<close>)
  also have "\<dots> = rsearch re False ((CHR '' '' # cm) @ nl # s)"
    using quiet_match_at [OF q, of "[]" ?t] by (simp add: is_lt_def)
  also have "\<dots> = rsearch re False (nl # s)"
    by (rule rsearch_inside [OF an]) (use cm in \<open>simp add: comment_ok_def is_lt_def\<close>)
  also have "\<dots> = rsearch re True s"
    using an by (simp add: match_at_def is_lt_def)
  finally show ?thesis by simp
qed

lemma count_block:
  assumes q: "quiet re u" and cm: "comment_ok cm"
  shows "count_all re bol (u @ ''# '' @ cm @ [nl] @ s) = count_all re True s"
proof -
  let ?t = "CHR ''#'' # CHR '' '' # cm @ nl # s"
  have an: "anchored re" using q by (simp add: quiet_def)
  have "count_all re bol (u @ ?t) = count_all re (bol_after bol u) ?t"
    by (rule count_all_skip) (use q in \<open>simp add: quiet_def\<close>)
  also have "\<dots> = count_all re False ((CHR '' '' # cm) @ nl # s)"
    using quiet_match_at [OF q, of "[]" ?t] by (simp add: is_lt_def count_all_no_match)
  also have "\<dots> = count_all re False (nl # s)"
    by (rule count_all_inside [OF an]) (use cm in \<open>simp add: comment_ok_def is_lt_def\<close>)
  also have "\<dots> = count_all re True s"
    using an by (simp add: match_at_def is_lt_def count_all_no_match)
  finally show ?thesis by simp
qed

lemma rsearch_hit: "rmatch (atoms re) s = Some m \<Longrightarrow> rsearch re True s = Some m"
  by (cases s) (simp_all add: match_at_def)




lemma match_at_suffix: "match_at re bol s = Some (g, r) \<Longrightarrow> suffix r s"
  by (auto simp: match_at_def rmatch_suffix split: if_splits)

lemma find_map: "find P (map f xs) = map_option f (find (\<lambda>x. P (f x)) xs)"
  by (induction xs) simp_all

lemma supported_detected: "supported sh \<Longrightarrow> detected st sh = sh"
  by (auto simp: supported_def detected_def)

lemma config_path_find:
  assumes "supported sh"
  shows "getAllShellConfigPaths st sh \<noteq> []"
    and "getShellConfigPath st sh =
           (case find (existsSync st) (getAllShellConfigPaths st sh) of
              Some p \<Rightarrow> p | None \<Rightarrow> hd (getAllShellConfigPaths st sh))"
proof -
  have ne: "configFiles sh \<noteq> []" using assms by (auto simp: supported_def configFiles_def)
  then show "getAllShellConfigPaths st sh \<noteq> []"
    by (simp add: getAllShellConfigPaths_def supported_detected [OF assms])
  show "getShellConfigPath st sh =
           (case find (existsSync st) (getAllShellConfigPaths st sh) of
              Some p \<Rightarrow> p | None \<Rightarrow> hd (getAllShellConfigPaths st sh))"
    using ne
    by (cases "configFiles sh")
       (auto simp: getShellConfigPath_def getAllShellConfigPaths_def supported_detected [OF assms]
          find_map Let_def split: option.splits)
qed

lemma supported_persistent: "supported sh \<Longrightarrow> supportsEnvPersistence st sh"
  by (auto simp: supported_def supportsEnvPersistence_def detected_def)

lemma find_after_write_gen:
  assumes st': "\<And>q. existsSync st' q = (q = p \<or> existsSync st q)"
    and "find (existsSync st) ps = Some p \<or> (find (existsSync st) ps = None \<and> ps \<noteq> [] \<and> hd ps = p)"
  shows "find (existsSync st') ps = Some p"
  using assms(2)
proof (induction ps)
  case Nil
  then show ?case by simp
next
  case (Cons q qs)
  show ?case
  proof (cases "q = p")
    case True
    then have "existsSync st' q" by (simp add: st')
    then show ?thesis using True by (simp only: find.simps if_True)
  next
    case ne: False
    have nq: "\<not> existsSync st q" using Cons.prems ne by (auto split: if_splits)
    then have "find (existsSync st) qs = Some p" using Cons.prems ne by auto
    then have "find (existsSync st') qs = Some p"
      by (intro Cons.IH) simp
    moreover have "\<not> existsSync st' q" using nq ne by (simp add: st')
    ultimately show ?thesis by (simp only: find.simps if_False)
  qed
qed

lemma find_after_write:
  assumes "find (existsSync st) ps = Some p \<or> (find (existsSync st) ps = None \<and> ps \<noteq> [] \<and> hd ps = p)"
  shows "find (existsSync (st\<lparr>files := (files st)(p \<mapsto> x)\<rparr>)) ps = Some p"
  by (rule find_after_write_gen [OF _ assms]) (simp add: existsSync_def)

lemma read_paths_find:
  assumes "find (existsSync s) ps = Some p" and "p \<notin> unreadable s"
    and "truthy_opt (extractEnvVariable (the (files s p)) n sh)"
  shows "read_paths s n sh ps = extractEnvVariable (the (files s p)) n sh"
  using assms(1)
proof (induction ps)
  case Nil
  then show ?case by simp
next
  case (Cons q qs)
  then show ?case using assms(2,3) by (cases "existsSync s q") auto
qed

lemma read_paths_not_empty: "read_paths st n sh ps \<noteq> Some []"
proof (induction ps)
  case Nil
  then show ?case by simp
next
  case (Cons q qs)
  show ?case
  proof (cases "extractEnvVariable (the (files st q)) n sh")
    case None
    then show ?thesis using Cons by simp
  next
    case (Some v)
    then show ?thesis using Cons by (cases v) auto
  qed
qed

lemma files_update_same [simp]:
  "detectShell (st\<lparr>files := f\<rparr>) = detectShell st"
  "getAllShellConfigPaths (st\<lparr>files := f\<rparr>) sh = getAllShellConfigPaths st sh"
  "env_get (st\<lparr>files := f\<rparr>) n = env_get st n"
  by (simp_all add: getAllShellConfigPaths_def detected_def detectShell_def env_get_def)

lemma target_after_write:
  assumes "supported sh"
  shows "getShellConfigPath (st\<lparr>files := (files st)(getShellConfigPath st sh \<mapsto> x)\<rparr>) sh
           = getShellConfigPath st sh"
    and "find (existsSync (st\<lparr>files := (files st)(getShellConfigPath st sh \<mapsto> x)\<rparr>))
           (getAllShellConfigPaths st sh) = Some (getShellConfigPath st sh)"
proof -
  let ?p = "getShellConfigPath st sh"
  let ?st = "st\<lparr>files := (files st)(?p \<mapsto> x)\<rparr>"
  have same: "getAllShellConfigPaths ?st sh = getAllShellConfigPaths st sh"
    by simp
  have "find (existsSync st) (getAllShellConfigPaths st sh) = Some ?p
        \<or> (find (existsSync st) (getAllShellConfigPaths st sh) = None
            \<and> getAllShellConfigPaths st sh \<noteq> [] \<and> hd (getAllShellConfigPaths st sh) = ?p)"
    using config_path_find [OF assms, of st]
    by (cases "find (existsSync st) (getAllShellConfigPaths st sh)") auto
  then show f: "find (existsSync ?st) (getAllShellConfigPaths st sh) = Some ?p"
    by (rule find_after_write)
  show "getShellConfigPath ?st sh = ?p"
    using config_path_find(2) [OF assms, of ?st] f same by simp
qed

lemma read_after_write:
  assumes "supported sh" and "detectShell st = sh" and "\<not> truthy (env_get st n)"
    and "getShellConfigPath st sh \<notin> unreadable st" and "truthy_opt (extractEnvVariable x n sh)"
  shows "readEnvVariable (st\<lparr>files := (files st)(getShellConfigPath st sh \<mapsto> x)\<rparr>) n
           = JStr (the (extractEnvVariable x n sh))"
proof -
  let ?p = "getShellConfigPath st sh"
  let ?st = "st\<lparr>files := (files st)(?p \<mapsto> x)\<rparr>"
  have d: "detectShell ?st = sh" using assms(2) by simp
  have same: "getAllShellConfigPaths ?st sh = getAllShellConfigPaths st sh"
    by simp
  have "read_paths ?st n sh (getAllShellConfigPaths st sh) = extractEnvVariable (the (files ?st ?p)) n sh"
    by (rule read_paths_find [OF target_after_write(2) [OF assms(1)]]) (use assms(4,5) in simp_all)
  then show ?thesis using assms(3,5) d same
    by (cases "extractEnvVariable x n sh") (simp_all add: readEnvVariable_def env_get_def)
qed

lemma write_new:
  assumes "supported sh" and "detectShell st = sh" and "opt_shell options = None"
    and "getShellConfigPath st sh \<notin> unreadable st" and "getShellConfigPath st sh \<notin> unwritable st"
    and "extractEnvVariable (content_of st (getShellConfigPath st sh)) n sh = None"
  shows "writeEnvVariable st n v options =
           (True, st\<lparr>files := (files st)(getShellConfigPath st sh \<mapsto>
              written st sh (content_of st (getShellConfigPath st sh)) (comment_of st options) n v)\<rparr>)"
  using assms(2-) supported_persistent [OF assms(1), of st]
  by (auto simp: writeEnvVariable_def existsSync_def content_of_def comment_of_def written_def
        sep_def Let_def split: option.splits)

lemma write_update:
  assumes "supported sh" and "detectShell st = sh" and "opt_shell options = None"
    and "opt_overwrite options \<noteq> Some False"
    and "getShellConfigPath st sh \<notin> unreadable st" and "getShellConfigPath st sh \<notin> unwritable st"
    and "truthy_opt (extractEnvVariable (content_of st (getShellConfigPath st sh)) n sh)"
  shows "writeEnvVariable st n v options =
           (True, st\<lparr>files := (files st)(getShellConfigPath st sh \<mapsto>
              written st sh (removeEnvVariable (content_of st (getShellConfigPath st sh)) n sh)
                (comment_of st options) n v)\<rparr>)"
  using assms(2-) supported_persistent [OF assms(1), of st]
  by (auto simp: writeEnvVariable_def existsSync_def content_of_def comment_of_def written_def
        sep_def Let_def split: option.splits)

lemma extract_search:
  "extractEnvVariable content n sh =
     (case rsearch (extract_pattern n sh) True content of
        Some (Some v, rest) \<Rightarrow> Some v | _ \<Rightarrow> None)"
  by (simp add: extractEnvVariable_def)


lemma after_write [simp]:
  "comment_of (st\<lparr>files := f\<rparr>) options = comment_of st options"
  "content_of (st\<lparr>files := (files st)(p \<mapsto> x)\<rparr>) p = x"
  by (simp_all add: comment_of_def content_of_def split: option.splits)

section \<open>Blank lines and the end of a line\<close>

lemma any_to_eol_gen:
  "rmatch [Star AnyChar, Eol] s = Some (None, dropWhile (\<lambda>c. \<not> is_lt c) s)"
proof -
  have s: "s = takeWhile (\<lambda>c. \<not> is_lt c) s @ dropWhile (\<lambda>c. \<not> is_lt c) s" by simp
  have "rmatch [Star AnyChar, Eol] (takeWhile (\<lambda>c. \<not> is_lt c) s @ dropWhile (\<lambda>c. \<not> is_lt c) s)
          = Some (None, dropWhile (\<lambda>c. \<not> is_lt c) s)"
  proof (rule any_to_eol)
    show "\<forall>c \<in> set (takeWhile (\<lambda>c. \<not> is_lt c) s). \<not> is_lt c"
      by (auto dest: set_takeWhileD)
    show "dropWhile (\<lambda>c. \<not> is_lt c) s = [] \<or> is_lt (hd (dropWhile (\<lambda>c. \<not> is_lt c) s))"
      using hd_dropWhile [of "\<lambda>c. \<not> is_lt c" s] by blast
  qed
  then show ?thesis by simp
qed

lemma first_some_map_option:
  "first_some (map (\<lambda>n. map_option f (g n)) xs) = map_option f (first_some (map g xs))"
proof (induction xs)
  case Nil
  then show ?case by simp
next
  case (Cons x xs)
  then show ?case by (cases "g x") simp_all
qed

lemma run_before: "\<not> in_cls c x \<Longrightarrow> run c (u @ x # b) = run c u"
  by (induction u) (simp_all add: run_Cons)

text \<open>A pattern of white space only does not look beyond the next character that is not white space.\<close>

lemma rmatch_blank_local:
  assumes x: "\<not> is_space x"
  shows "\<forall>a \<in> set p. blank_atom a \<Longrightarrow>
           rmatch p (u @ x # b) = map_option (\<lambda>(g, r). (g, r @ x # b)) (rmatch p u)"
proof (induction p arbitrary: u)
  case Nil
  then show ?case by simp
next
  case (Cons a p)
  have ps: "\<forall>a \<in> set p. blank_atom a" using Cons.prems by simp
  note IH = Cons.IH [OF ps]
  show ?case
  proof (cases a)
    case (Lit l)
    then have l: "\<forall>c \<in> set l. is_space c" using Cons.prems by simp
    then have xl: "x \<notin> set l" using x by auto
    show ?thesis
    proof (cases "prefix l u")
      case True
      then obtain u' where u': "u = l @ u'" by (auto simp: prefix_def)
      then show ?thesis using Lit IH [of u'] by (simp add: rmatch_Lit)
    next
      case False
      then have "\<not> prefix l (u @ x # b)"
        using prefix_append_stop [of l u "x # b"] xl by auto
      then show ?thesis using Lit False by (simp add: rmatch_Lit)
    qed
  next
    case (Star c)
    then have c: "c = Space" using Cons.prems by simp
    have r: "run Space (u @ x # b) = run Space u" by (rule run_before) (use x in simp)
    have meq: "map (\<lambda>n. rmatch p (drop n (u @ x # b))) (tries 0 (run Space u))
            = map (\<lambda>n. map_option (\<lambda>(g, r). (g, r @ x # b)) (rmatch p (drop n u))) (tries 0 (run Space u))"
    proof (rule map_cong [OF refl])
      fix n assume "n \<in> set (tries 0 (run Space u))"
      then have "n \<le> length u" using run_le_length [of Space u] by simp
      then show "rmatch p (drop n (u @ x # b))
                   = map_option (\<lambda>(g, r). (g, r @ x # b)) (rmatch p (drop n u))"
        using IH [of "drop n u"] by simp
    qed
    have "rmatch (Star Space # p) (u @ x # b)
            = first_some (map (\<lambda>n. rmatch p (drop n (u @ x # b))) (tries 0 (run Space u)))"
      by (simp only: rmatch_Star r)
    also have "\<dots> = first_some (map (\<lambda>n. map_option (\<lambda>(g, r). (g, r @ x # b)) (rmatch p (drop n u)))
                          (tries 0 (run Space u)))"
      by (simp only: meq)
    also have "\<dots> = map_option (\<lambda>(g, r). (g, r @ x # b))
                        (first_some (map (\<lambda>n. rmatch p (drop n u)) (tries 0 (run Space u))))"
      by (rule first_some_map_option)
    also have "\<dots> = map_option (\<lambda>(g, r). (g, r @ x # b)) (rmatch (Star Space # p) u)"
      by (simp only: rmatch_Star)
    finally show ?thesis using Star c by simp
  next
    case (Plus c)
    then show ?thesis using Cons.prems by simp
  next
    case (Opt c)
    then show ?thesis using Cons.prems by simp
  next
    case (Grp c)
    then show ?thesis using Cons.prems by simp
  next
    case Eol
    then show ?thesis using Cons.prems by simp
  qed
qed

lemma blank_lines_match_at:
  "match_at blank_lines bol s = rmatch [Lit [nl], Star Space, Lit [nl], Star Space, Lit [nl]] s"
  by (simp add: match_at_def blank_lines_def)

lemma blank_lines_local:
  "\<not> is_space x \<Longrightarrow>
     match_at blank_lines bol (u @ x # b) = map_option (\<lambda>(g, r). (g, r @ x # b)) (match_at blank_lines bol' u)"
  unfolding blank_lines_match_at
  by (rule rmatch_blank_local) (simp_all add: is_space_def)

lemma blank_lines_needs_nl: "s = [] \<or> hd s \<noteq> nl \<Longrightarrow> match_at blank_lines bol s = None"
  unfolding blank_lines_match_at by (cases s) (auto simp: rmatch_Lit)

lemma collapse_split:
  assumes x: "\<not> is_space x"
  shows "replace_all blank_lines repl bol (a @ x # b)
           = replace_all blank_lines repl bol a @ x # replace_all blank_lines repl (is_lt x) b"
proof (induction "length a" arbitrary: a bol rule: less_induct)
  case less
  have xn: "x \<noteq> nl" using x by (auto simp: is_space_def)
  show ?case
  proof (cases a)
    case Nil
    have "match_at blank_lines bol (x # b) = None" and "match_at blank_lines bol [] = None"
      using xn by (simp_all add: blank_lines_needs_nl)
    then show ?thesis using Nil by (simp add: replace_all_no_match replace_all_Nil)
  next
    case (Cons c cs)
    have step: "replace_all blank_lines repl bb (cs @ x # b)
                  = replace_all blank_lines repl bb cs @ x # replace_all blank_lines repl (is_lt x) b" for bb
      by (rule less.hyps) (simp add: Cons)
    show ?thesis
    proof (cases "match_at blank_lines bol a")
      case None
      then have "match_at blank_lines bol (a @ x # b) = None"
        using blank_lines_local [OF x, of bol a b bol] by simp
      then show ?thesis using None Cons step by (simp add: replace_all_no_match)
    next
      case (Some m)
      obtain g r where m: "m = (g, r)" by (cases m)
      have Some': "match_at blank_lines bol (a @ x # b) = Some (g, r @ x # b)"
        using blank_lines_local [OF x, of bol a b bol] Some m by simp
      have ra: "length r \<le> length a"
        using match_at_suffix [of blank_lines bol a g r] Some m by (auto simp: suffix_def)
      show ?thesis
      proof (cases "length r < length a")
        case True
        let ?i = "length a - length r - 1"
        have i: "?i < length a" using True by simp
        have l: "replace_all blank_lines repl bol (a @ x # b)
                   = repl @ replace_all blank_lines repl (is_lt ((a @ x # b) ! ?i)) (r @ x # b)"
          by (subst replace_all.simps) (use Some' True in simp)
        have rr: "replace_all blank_lines repl bol a = repl @ replace_all blank_lines repl (is_lt (a ! ?i)) r"
          by (subst replace_all.simps) (use Some m True in simp)
        have "(a @ x # b) ! ?i = a ! ?i" using i by (simp add: nth_append)
        then show ?thesis using l rr less.hyps [OF True] by simp
      next
        case False
        then have f: "\<not> length (r @ x # b) < length (a @ x # b)" using ra by simp
        have l: "replace_all blank_lines repl bol (a @ x # b)
                   = repl @ c # replace_all blank_lines repl (is_lt c) (cs @ x # b)"
          by (subst replace_all.simps) (use Some' f Cons in simp)
        have rr: "replace_all blank_lines repl bol a = repl @ c # replace_all blank_lines repl (is_lt c) cs"
          by (subst replace_all.simps) (use Some m False Cons in simp)
        show ?thesis using l rr step by simp
      qed
    qed
  qed
qed


section \<open>What a pattern can reach\<close>

lemma first_some_None_iff: "first_some xs = None \<longleftrightarrow> (\<forall>x \<in> set xs. x = None)"
  by (induction xs rule: first_some.induct) auto

lemma reach_None: "rmatch as s = None \<longleftrightarrow> reach as s = {}"
proof (induction as arbitrary: s)
  case Nil
  then show ?case by simp
next
  case (Cons a as)
  show ?case
    by (cases a) (auto simp: rmatch.simps(2) first_some_None_iff Cons.IH)
qed

lemma reach_Some: "rmatch as s = Some (g, r) \<Longrightarrow> r \<in> reach as s"
proof (induction as arbitrary: s g r)
  case Nil
  then show ?case by simp
next
  case (Cons a as)
  show ?case
  proof (cases a)
    case (Lit l)
    then show ?thesis using Cons by (auto simp: rmatch.simps(2) split: if_splits)
  next
    case (Star c)
    then obtain k where "k \<in> {0..run c s}" "rmatch as (drop k s) = Some (g, r)"
      using Cons.prems first_some_map_SomeD [of "\<lambda>n. rmatch as (drop n s)" "tries 0 (run c s)" "(g, r)"]
      by (auto simp: rmatch.simps(2))
    then have "r \<in> reach as (drop k s)" using Cons.IH by blast
    then show ?thesis using Star \<open>k \<in> _\<close> by (auto intro!: bexI [of _ k])
  next
    case (Plus c)
    then obtain k where "k \<in> {1..run c s}" "rmatch as (drop k s) = Some (g, r)"
      using Cons.prems first_some_map_SomeD [of "\<lambda>n. rmatch as (drop n s)" "tries 1 (run c s)" "(g, r)"]
      by (auto simp: rmatch.simps(2))
    then have "r \<in> reach as (drop k s)" using Cons.IH by blast
    then show ?thesis using Plus \<open>k \<in> _\<close> by (auto intro!: bexI [of _ k])
  next
    case (Opt c)
    then obtain k where "k \<in> {0..min 1 (run c s)}" "rmatch as (drop k s) = Some (g, r)"
      using Cons.prems
        first_some_map_SomeD [of "\<lambda>n. rmatch as (drop n s)" "tries 0 (min 1 (run c s))" "(g, r)"]
      by (auto simp: rmatch.simps(2))
    then have "r \<in> reach as (drop k s)" using Cons.IH by blast
    then show ?thesis using Opt \<open>k \<in> _\<close> by (auto intro!: bexI [of _ k])
  next
    case (Grp c)
    then obtain k where k: "k \<in> {1..run c s}"
      "map_option (\<lambda>(g, r). (Some (take k s), r)) (rmatch as (drop k s)) = Some (g, r)"
      using Cons.prems
        first_some_map_SomeD [of "\<lambda>n. map_option (\<lambda>(g, r). (Some (take n s), r)) (rmatch as (drop n s))"
          "tries 1 (run c s)" "(g, r)"]
      by (auto simp: rmatch.simps(2))
    then obtain g' where "rmatch as (drop k s) = Some (g', r)" by auto
    then have "r \<in> reach as (drop k s)" using Cons.IH by blast
    then show ?thesis using Grp k(1) by (auto intro!: bexI [of _ k])
  next
    case Eol
    then show ?thesis using Cons by (auto simp: rmatch.simps(2) split: if_splits)
  qed
qed

lemma reach_append: "reach (A @ B) s = (\<Union>r \<in> reach A s. reach B r)"
proof (induction A arbitrary: s)
  case Nil
  then show ?case by simp
next
  case (Cons a A)
  show ?case by (cases a) (auto simp: Cons.IH)
qed

lemma reach_suffix: "r \<in> reach as s \<Longrightarrow> suffix r s"
proof (induction as arbitrary: s)
  case Nil
  then show ?case by simp
next
  case (Cons a as)
  have d: "suffix r (drop k s) \<Longrightarrow> suffix r s" for k
    using suffix_order.trans [OF _ suffix_drop] by blast
  show ?case using Cons.prems
    by (cases a) (auto split: if_splits dest!: Cons.IH intro: d)
qed

lemma lt_space: "is_lt c \<Longrightarrow> is_space c"
  by (auto simp: is_lt_def is_space_def)

lemma run_mono: "run c b \<le> run c (b @ rest)"
  by (induction b) (auto simp: run_Cons)

lemma drop_run_append: "k \<le> run c b \<Longrightarrow> drop k (b @ rest) = drop k b @ rest"
  using run_le_length [of c b] by simp

lemma reach_mono:
  "Eol \<notin> set as \<Longrightarrow> b' \<in> reach as b \<Longrightarrow> b' @ rest \<in> reach as (b @ rest)"
proof (induction as arbitrary: b)
  case Nil
  then show ?case by simp
next
  case (Cons a as)
  have ih: "\<And>x. b' \<in> reach as x \<Longrightarrow> b' @ rest \<in> reach as (x @ rest)"
    using Cons.IH Cons.prems(1) by simp
  show ?case
  proof (cases a)
    case (Lit l)
    then have p: "prefix l b" and r: "b' \<in> reach as (drop (length l) b)"
      using Cons.prems(2) by (auto split: if_splits)
    have "length l \<le> length b" using p by (simp add: prefix_length_le)
    then have "drop (length l) (b @ rest) = drop (length l) b @ rest" by simp
    then show ?thesis using Lit p ih [OF r] by (simp add: prefix_prefix)
  next
    case (Star c)
    then obtain k where k: "k \<le> run c b" "b' \<in> reach as (drop k b)"
      using Cons.prems(2) by auto
    have "b' @ rest \<in> reach as (drop k (b @ rest))"
      using ih [OF k(2)] drop_run_append [OF k(1)] by simp
    moreover have "k \<in> {0..run c (b @ rest)}" using k(1) run_mono [of c b rest] by simp
    ultimately show ?thesis using Star by (auto intro!: bexI [of _ k])
  next
    case (Plus c)
    then obtain k where k: "1 \<le> k" "k \<le> run c b" "b' \<in> reach as (drop k b)"
      using Cons.prems(2) by auto
    have "b' @ rest \<in> reach as (drop k (b @ rest))"
      using ih [OF k(3)] drop_run_append [OF k(2)] by simp
    moreover have "k \<in> {1..run c (b @ rest)}" using k(1,2) run_mono [of c b rest] by simp
    ultimately show ?thesis using Plus by (auto intro!: bexI [of _ k])
  next
    case (Opt c)
    then obtain k where k: "k \<le> min 1 (run c b)" "b' \<in> reach as (drop k b)"
      using Cons.prems(2) by auto
    have "k \<le> run c b" using k(1) by simp
    then have "b' @ rest \<in> reach as (drop k (b @ rest))"
      using ih [OF k(2)] drop_run_append by simp
    moreover have "k \<in> {0..min 1 (run c (b @ rest))}" using k(1) run_mono [of c b rest] by simp
    ultimately show ?thesis using Opt by (auto intro!: bexI [of _ k])
  next
    case (Grp c)
    then obtain k where k: "1 \<le> k" "k \<le> run c b" "b' \<in> reach as (drop k b)"
      using Cons.prems(2) by auto
    have "b' @ rest \<in> reach as (drop k (b @ rest))"
      using ih [OF k(3)] drop_run_append [OF k(2)] by simp
    moreover have "k \<in> {1..run c (b @ rest)}" using k(1,2) run_mono [of c b rest] by simp
    ultimately show ?thesis using Grp by (auto intro!: bexI [of _ k])
  next
    case Eol
    then show ?thesis using Cons.prems(1) by simp
  qed
qed

lemma run_space_inside:
  assumes "\<not> blank b"
  shows "run Space (b @ rest) = run Space b"
proof -
  from assms obtain x where "x \<in> set b" "\<not> is_space x" by (auto simp: blank_def)
  then have "takeWhile is_space (b @ rest) = takeWhile is_space b"
    by (simp add: takeWhile_append1)
  then show ?thesis by (simp add: run_def in_cls_Space)
qed

lemma pb_Cons_space: "space_atom k \<Longrightarrow> blank b \<Longrightarrow> partial_line (k # H) b"
  by (auto simp: partial_line_def)

lemma pb_Cons_Lit:
  "prefix l b \<Longrightarrow> partial_line H (drop (length l) b) \<Longrightarrow> partial_line (Lit l # H) b"
  by (auto simp: partial_line_def)

lemma pb_Cons_Star:
  "j \<le> run Space b \<Longrightarrow> partial_line H (drop j b) \<Longrightarrow> partial_line (Star Space # H) b"
  by (auto simp: partial_line_def intro!: bexI [of _ j])

lemma pb_Cons_Plus:
  "1 \<le> j \<Longrightarrow> j \<le> run Space b \<Longrightarrow> partial_line H (drop j b) \<Longrightarrow> partial_line (Plus Space # H) b"
  by (auto simp: partial_line_def intro!: bexI [of _ j])

lemma reach_local:
  assumes b: "\<forall>c \<in> set b. \<not> is_lt c" and rest: "line_end rest"
  shows "\<forall>h \<in> set H. plain_atom h \<Longrightarrow> \<not> partial_line H b \<Longrightarrow> r \<in> reach H (b @ rest)
           \<Longrightarrow> \<exists>b'. r = b' @ rest \<and> b' \<in> reach H b"
  using b
proof (induction H arbitrary: b)
  case Nil
  then show ?case by simp
next
  case (Cons a H)
  have pl: "\<forall>h \<in> set H. plain_atom h" using Cons.prems(1) by simp
  show ?case
  proof (cases a)
    case (Lit l)
    then have l: "plain l" using Cons.prems(1) by simp
    from Lit Cons.prems(3) have p: "prefix l (b @ rest)"
      and r: "r \<in> reach H (drop (length l) (b @ rest))" by (auto split: if_splits)
    have "rest = [] \<or> hd rest \<notin> set l"
      using rest l lt_space by (auto simp: line_end_def plain_def)
    then have partial_line': "prefix l b" using p prefix_append_stop by blast
    then have d: "drop (length l) (b @ rest) = drop (length l) b @ rest"
      by (simp add: prefix_length_le)
    have np: "\<not> partial_line H (drop (length l) b)"
      using Cons.prems(2) Lit pb_Cons_Lit [OF partial_line'] by blast
    have "\<forall>c \<in> set (drop (length l) b). \<not> is_lt c"
      using Cons.prems(4) by (meson in_set_dropD)
    from Cons.IH [OF pl np _ this] r d
    obtain b' where "r = b' @ rest" "b' \<in> reach H (drop (length l) b)" by auto
    then show ?thesis using Lit partial_line' by auto
  next
    case (Star c)
    then have c: "c = Space" using Cons.prems(1) by simp
    have nb: "\<not> blank b" using Cons.prems(2) Star c pb_Cons_space [of a b H] by auto
    from Star c Cons.prems(3) obtain j where j: "j \<le> run Space (b @ rest)"
      and r: "r \<in> reach H (drop j (b @ rest))" by auto
    have j': "j \<le> run Space b" using j run_space_inside [OF nb] by simp
    have d: "drop j (b @ rest) = drop j b @ rest" using drop_run_append [OF j'] .
    have np: "\<not> partial_line H (drop j b)"
      using Cons.prems(2) Star c pb_Cons_Star [OF j'] by blast
    have "\<forall>c \<in> set (drop j b). \<not> is_lt c"
      using Cons.prems(4) by (meson in_set_dropD)
    from Cons.IH [OF pl np _ this] r d
    obtain b' where "r = b' @ rest" "b' \<in> reach H (drop j b)" by auto
    then show ?thesis using Star c j' by (auto intro!: bexI [of _ j])
  next
    case (Plus c)
    then have c: "c = Space" using Cons.prems(1) by simp
    have nb: "\<not> blank b" using Cons.prems(2) Plus c pb_Cons_space [of a b H] by auto
    from Plus c Cons.prems(3) obtain j where j: "1 \<le> j" "j \<le> run Space (b @ rest)"
      and r: "r \<in> reach H (drop j (b @ rest))" by auto
    have j': "j \<le> run Space b" using j run_space_inside [OF nb] by simp
    have d: "drop j (b @ rest) = drop j b @ rest" using drop_run_append [OF j'] .
    have np: "\<not> partial_line H (drop j b)"
      using Cons.prems(2) Plus c pb_Cons_Plus [OF j(1) j'] by blast
    have "\<forall>c \<in> set (drop j b). \<not> is_lt c"
      using Cons.prems(4) by (meson in_set_dropD)
    from Cons.IH [OF pl np _ this] r d
    obtain b' where "r = b' @ rest" "b' \<in> reach H (drop j b)" by auto
    then show ?thesis using Plus c j j' by (auto intro!: bexI [of _ j])
  next
    case (Opt c)
    then show ?thesis using Cons.prems(1) by simp
  next
    case (Grp c)
    then show ?thesis using Cons.prems(1) by simp
  next
    case Eol
    then show ?thesis using Cons.prems(1) by simp
  qed
qed

lemma reach_nl_local:
  "\<forall>a \<in> set as. nlstop a \<Longrightarrow> r \<in> reach as (u @ nl # t)
     \<Longrightarrow> \<exists>r'. r = r' @ nl # t \<and> r' \<in> reach as u"
proof (induction as arbitrary: u)
  case Nil
  then show ?case by simp
next
  case (Cons a as)
  have ns: "\<forall>a \<in> set as. nlstop a" using Cons.prems(1) by simp
  have step: "\<exists>r'. r = r' @ nl # t \<and> r' \<in> reach as (drop k u)"
    if "k \<le> run c u" "r \<in> reach as (drop k (u @ nl # t))" for k c
  proof -
    have "drop k (u @ nl # t) = drop k u @ nl # t" using drop_run_append [OF that(1)] .
    then show ?thesis using Cons.IH [OF ns] that(2) by simp
  qed
  show ?case
  proof (cases a)
    case (Lit l)
    then have l: "nl \<notin> set l" using Cons.prems(1) by simp
    from Lit Cons.prems(2) have p: "prefix l (u @ nl # t)"
      and r: "r \<in> reach as (drop (length l) (u @ nl # t))" by (auto split: if_splits)
    have pu: "prefix l u" using p l prefix_append_stop [of l u "nl # t"] by simp
    then have "drop (length l) (u @ nl # t) = drop (length l) u @ nl # t"
      by (simp add: prefix_length_le)
    then show ?thesis using Cons.IH [OF ns] r Lit pu by auto
  next
    case (Star c)
    then have c: "\<not> in_cls c nl" using Cons.prems(1) by simp
    have run: "run c (u @ nl # t) = run c u" using run_before [OF c] .
    from Star Cons.prems(2) run obtain k where k: "k \<le> run c u"
      "r \<in> reach as (drop k (u @ nl # t))" by auto
    from step [OF k] show ?thesis using Star k(1) by (auto intro!: bexI [of _ k])
  next
    case (Plus c)
    then have c: "\<not> in_cls c nl" using Cons.prems(1) by simp
    have run: "run c (u @ nl # t) = run c u" using run_before [OF c] .
    from Plus Cons.prems(2) run obtain k where k: "k \<le> run c u"
      "r \<in> reach as (drop k (u @ nl # t))" and k1: "1 \<le> k" by auto
    from step [OF k] show ?thesis using Plus k(1) k1 by (auto intro!: bexI [of _ k])
  next
    case (Opt c)
    then have c: "\<not> in_cls c nl" using Cons.prems(1) by simp
    have run: "run c (u @ nl # t) = run c u" using run_before [OF c] .
    from Opt Cons.prems(2) run obtain k where k: "k \<le> run c u"
      "r \<in> reach as (drop k (u @ nl # t))" and k1: "k \<le> 1" by auto
    from step [OF k] show ?thesis using Opt k(1) k1 by (auto intro!: bexI [of _ k])
  next
    case (Grp c)
    then have c: "\<not> in_cls c nl" using Cons.prems(1) by simp
    have run: "run c (u @ nl # t) = run c u" using run_before [OF c] .
    from Grp Cons.prems(2) run obtain k where k: "k \<le> run c u"
      "r \<in> reach as (drop k (u @ nl # t))" and k1: "1 \<le> k" by auto
    from step [OF k] show ?thesis using Grp k(1) k1 by (auto intro!: bexI [of _ k])
  next
    case Eol
    then show ?thesis using Cons.prems(1) by simp
  qed
qed

section \<open>The patterns at a line\<close>

lemma atoms_remove: "atoms (remove_pattern n sh) = Star Space # remove_head n sh @ [Star AnyChar, Eol]"
  by (simp add: remove_pattern_def remove_head_def)

lemma atoms_extract:
  "atoms (extract_pattern n sh) = Star Space # extract_head n sh @ [Opt Quote, Grp ValueChar, Opt Quote]"
  by (simp add: extract_pattern_def extract_head_def remove_head_def)

lemma heads_plain:
  assumes "name_ok n"
  shows "\<forall>h \<in> set (remove_head n sh). plain_atom h" and "\<forall>h \<in> set (extract_head n sh). plain_atom h"
proof -
  have "plain (''$env:'' @ n)" "plain (n @ ''='')" "plain n"
    using plain_literals name_ok_plain [OF assms] plain_append by blast+
  then show "\<forall>h \<in> set (remove_head n sh). plain_atom h" and "\<forall>h \<in> set (extract_head n sh). plain_atom h"
    using plain_literals by (auto simp: remove_head_def extract_head_def)
qed

lemma heads_noeol: "Eol \<notin> set (remove_head n sh)" "Eol \<notin> set (extract_head n sh)"
  by (auto simp: remove_head_def extract_head_def)

lemma head_first:
  assumes "name_ok n"
  shows "\<exists>l as. remove_head n sh = Lit l # as \<and> plain l" and "\<exists>l as. extract_head n sh = Lit l # as \<and> plain l"
proof -
  have "plain (''$env:'' @ n)"
    using plain_literals name_ok_plain [OF assms] plain_append by blast
  then show "\<exists>l as. remove_head n sh = Lit l # as \<and> plain l" and "\<exists>l as. extract_head n sh = Lit l # as \<and> plain l"
    using plain_literals by (auto simp: remove_head_def extract_head_def)
qed

lemma cuts_append: "set (cuts H) \<subseteq> set (cuts (H @ X))"
  by (induction H) auto

lemma pb_append: "partial_line H b \<Longrightarrow> partial_line (H @ X) b"
  using cuts_append by (fastforce simp: partial_line_def)

lemma pb_HR: "partial_line (remove_head n sh) b \<Longrightarrow> partial_line (extract_head n sh) b"
  by (simp add: extract_head_def pb_append)

lemma dropWhile_body: "blank w \<Longrightarrow> body_ok b \<Longrightarrow> dropWhile is_space (w @ b @ rest) = b @ rest"
  by (cases b) (auto simp: blank_def body_ok_def dropWhile_append)

lemma skip_to_body:
  assumes "plain l" and "blank w" and "body_ok b"
  shows "rmatch (Star Space # Lit l # as) (w @ b @ rest) = rmatch (Lit l # as) (b @ rest)"
proof -
  have "l \<noteq> []" "\<not> is_space (hd l)" using assms(1) by (auto simp: plain_def)
  from star_space_lit [OF this] show ?thesis using dropWhile_body [OF assms(2,3)] by simp
qed

lemma reach_any_eol:
  assumes "\<forall>c \<in> set x. \<not> is_lt c" and "line_end rest"
  shows "reach [Star AnyChar, Eol] (x @ rest) = {rest}"
proof -
  have run: "run AnyChar (x @ rest) = length x"
    using assms by (intro run_all) (auto simp: line_end_def)
  have a: "drop k (x @ rest) \<noteq> [] \<and> \<not> is_lt (hd (drop k (x @ rest)))" if "k < length x" for k
  proof -
    have "drop k (x @ rest) = (x ! k) # drop (Suc k) x @ rest"
      using that by (simp add: Cons_nth_drop_Suc)
    then show ?thesis using assms(1) that by simp
  qed
  have "reach [Star AnyChar, Eol] (x @ rest) \<subseteq> {rest}"
  proof
    fix r assume "r \<in> reach [Star AnyChar, Eol] (x @ rest)"
    then obtain k where k: "k \<le> length x" "r = drop k (x @ rest)"
      "drop k (x @ rest) = [] \<or> is_lt (hd (drop k (x @ rest)))"
      using run by (auto split: if_splits)
    then have "k = length x" using a [of k] by (cases "k < length x") auto
    then show "r \<in> {rest}" using k(2) by simp
  qed
  moreover have "rest \<in> reach [Star AnyChar, Eol] (x @ rest)"
    using run assms(2) by (auto simp: line_end_def intro!: bexI [of _ "length x"])
  ultimately show ?thesis by blast
qed

lemma reach_tail_total: "reach [Star AnyChar, Eol] s \<noteq> {}"
  using any_to_eol_gen [of s] reach_None [of "[Star AnyChar, Eol]" s] by simp

lemma rmatch_no_group:
  "\<forall>a \<in> set as. \<forall>c. a \<noteq> Grp c \<Longrightarrow> rmatch as s = Some (g, r) \<Longrightarrow> g = None"
proof (induction as arbitrary: s)
  case Nil
  then show ?case by simp
next
  case (Cons a as)
  have ih: "\<And>s. rmatch as s = Some (g, r) \<Longrightarrow> g = None" using Cons by simp
  show ?case
  proof (cases a)
    case (Lit l)
    then show ?thesis using Cons.prems(2) ih by (auto simp: rmatch_Lit split: if_splits)
  next
    case (Star c)
    then have "first_some (map (\<lambda>n. rmatch as (drop n s)) (tries 0 (run c s))) = Some (g, r)"
      using Cons.prems(2) by (simp add: rmatch_Star)
    from first_some_map_SomeD [OF this] obtain k where "rmatch as (drop k s) = Some (g, r)"
      by blast
    then show ?thesis by (rule ih)
  next
    case (Plus c)
    then have "first_some (map (\<lambda>n. rmatch as (drop n s)) (tries 1 (run c s))) = Some (g, r)"
      using Cons.prems(2) by (simp add: rmatch_Plus)
    from first_some_map_SomeD [OF this] obtain k where "rmatch as (drop k s) = Some (g, r)"
      by blast
    then show ?thesis by (rule ih)
  next
    case (Opt c)
    then have "first_some (map (\<lambda>n. rmatch as (drop n s)) (tries 0 (min 1 (run c s)))) = Some (g, r)"
      using Cons.prems(2) by (simp add: rmatch_Opt)
    from first_some_map_SomeD [OF this] obtain k where "rmatch as (drop k s) = Some (g, r)"
      by blast
    then show ?thesis by (rule ih)
  next
    case (Grp c)
    then show ?thesis using Cons.prems(1) by simp
  next
    case Eol
    then show ?thesis using Cons.prems(2) ih by (auto simp: rmatch_Eol split: if_splits)
  qed
qed

lemma remove_no_group: "rmatch (atoms (remove_pattern n sh)) s = Some (g, r) \<Longrightarrow> g = None"
  by (rule rmatch_no_group [rotated]) (auto simp: atoms_remove remove_head_def split: if_splits)

text \<open>The removal pattern at a line that is no partial assignment.\<close>

lemma remove_at_line:
  assumes n: "name_ok n" and b: "body_ok b" and np: "\<not> partial_line (extract_head n sh) b"
    and w: "blank w" and rest: "line_end rest"
  shows "rmatch (atoms (remove_pattern n sh)) (w @ b @ rest)
           = (if reach (remove_head n sh) b \<noteq> {} then Some (None, rest) else None)"
proof -
  let ?T = "[Star AnyChar, Eol]"
  from head_first(1) [OF n] obtain l as where H: "remove_head n sh = Lit l # as" "plain l" by blast
  have lt: "\<forall>c \<in> set b. \<not> is_lt c" using b by (simp add: body_ok_def)
  have np': "\<not> partial_line (remove_head n sh) b" using np pb_HR by blast
  have m: "rmatch (atoms (remove_pattern n sh)) (w @ b @ rest) = rmatch (remove_head n sh @ ?T) (b @ rest)"
    using skip_to_body [OF H(2) w b] H(1) by (simp add: atoms_remove)
  have loc: "\<exists>b'. r1 = b' @ rest \<and> b' \<in> reach (remove_head n sh) b" if "r1 \<in> reach (remove_head n sh) (b @ rest)" for r1
    using reach_local [OF lt rest heads_plain(1) [OF n] np' that] .
  show ?thesis
  proof (cases "reach (remove_head n sh) b = {}")
    case True
    have "reach (remove_head n sh @ ?T) (b @ rest) = {}"
      unfolding reach_append using loc True by blast
    then show ?thesis using m True reach_None by simp
  next
    case False
    then obtain b' where b': "b' \<in> reach (remove_head n sh) b" by blast
    have "b' @ rest \<in> reach (remove_head n sh) (b @ rest)"
      using reach_mono [OF heads_noeol(1) b'] .
    then have "reach (remove_head n sh @ ?T) (b @ rest) \<noteq> {}"
      unfolding reach_append using reach_tail_total by blast
    then obtain g r where gr: "rmatch (remove_head n sh @ ?T) (b @ rest) = Some (g, r)"
      using reach_None [of "remove_head n sh @ ?T" "b @ rest"] by (cases "rmatch (remove_head n sh @ ?T) (b @ rest)") auto
    have g: "g = None" using remove_no_group [of n sh "w @ b @ rest" g r] m gr by simp
    from reach_Some [OF gr] obtain r1 where r1: "r1 \<in> reach (remove_head n sh) (b @ rest)" "r \<in> reach ?T r1"
      unfolding reach_append by blast
    from loc [OF r1(1)] obtain b1 where b1: "r1 = b1 @ rest" "b1 \<in> reach (remove_head n sh) b" by blast
    have "\<forall>c \<in> set b1. \<not> is_lt c"
      using reach_suffix [OF b1(2)] lt by (auto simp: suffix_def)
    from reach_any_eol [OF this rest] r1(2) b1(1) have "r = rest" by simp
    then show ?thesis using m gr g False by simp
  qed
qed

text \<open>Where the removal pattern finds nothing, the extraction pattern finds nothing.\<close>

lemma extract_needs_remove:
  assumes "rmatch (atoms (remove_pattern n sh)) s = None"
  shows "rmatch (atoms (extract_pattern n sh)) s = None"
proof (rule ccontr)
  define X where "X = (if sh = ''powershell'' then [Star Space] else []) @ [Opt Quote, Grp ValueChar, Opt Quote]"
  have ae: "atoms (extract_pattern n sh) = Star Space # (remove_head n sh @ X)"
    by (simp add: atoms_extract extract_head_def X_def)
  assume "rmatch (atoms (extract_pattern n sh)) s \<noteq> None"
  then have "reach (atoms (extract_pattern n sh)) s \<noteq> {}"
    by (simp add: reach_None)
  then have "reach (Star Space # (remove_head n sh @ X)) s \<noteq> {}"
    unfolding ae .
  then obtain k where k: "k \<le> run Space s" "reach (remove_head n sh @ X) (drop k s) \<noteq> {}"
    by fastforce
  then obtain r1 where r1: "r1 \<in> reach (remove_head n sh) (drop k s)"
    unfolding reach_append by blast
  have "reach (remove_head n sh @ [Star AnyChar, Eol]) (drop k s) \<noteq> {}"
    unfolding reach_append using r1 reach_tail_total by blast
  then have "reach (Star Space # (remove_head n sh @ [Star AnyChar, Eol])) s \<noteq> {}"
    using k(1) by (auto intro!: bexI [of _ k])
  then show False using assms reach_None [of "atoms (remove_pattern n sh)" s]
    by (simp add: atoms_remove)
qed

text \<open>What follows the text after a line break does not make the extraction pattern match.\<close>

lemma extract_context:
  assumes n: "name_ok n" and b: "body_ok b" and np: "\<not> partial_line (extract_head n sh) b"
    and w: "blank w" and rest: "line_end rest"
    and m: "rmatch (atoms (extract_pattern n sh)) (w @ b @ rest) = None"
  shows "rmatch (atoms (extract_pattern n sh)) (w @ b @ rest @ nl # t) = None"
proof (rule ccontr)
  let ?T = "[Opt Quote, Grp ValueChar, Opt Quote]"
  assume a: "rmatch (atoms (extract_pattern n sh)) (w @ b @ rest @ nl # t) \<noteq> None"
  from head_first(2) [OF n] obtain l as where H: "extract_head n sh = Lit l # as" "plain l" by blast
  have lt: "\<forall>c \<in> set b. \<not> is_lt c" using b by (simp add: body_ok_def)
  have rest2: "line_end (rest @ nl # t)" using rest by (cases rest) (auto simp: line_end_def is_lt_def)
  have e: "rmatch (atoms (extract_pattern n sh)) (w @ b @ x) = rmatch (extract_head n sh @ ?T) (b @ x)" for x
    using skip_to_body [OF H(2) w b] H(1) by (simp add: atoms_extract)
  from a e [of "rest @ nl # t"] have "reach (extract_head n sh @ ?T) (b @ rest @ nl # t) \<noteq> {}"
    using reach_None by simp
  then obtain r1 r where r1: "r1 \<in> reach (extract_head n sh) (b @ rest @ nl # t)" "r \<in> reach ?T r1"
    unfolding reach_append by blast
  from reach_local [OF lt rest2 heads_plain(2) [OF n] np r1(1)]
  obtain b1 where b1: "r1 = b1 @ rest @ nl # t" "b1 \<in> reach (extract_head n sh) b" by blast
  have ns: "\<forall>a \<in> set ?T. nlstop a" by simp
  have "r \<in> reach ?T ((b1 @ rest) @ nl # t)" using r1(2) b1(1) by (simp only: append_assoc)
  from reach_nl_local [OF ns this]
  obtain r' where "r' \<in> reach ?T (b1 @ rest)" by blast
  moreover have "b1 @ rest \<in> reach (extract_head n sh) (b @ rest)"
    using reach_mono [OF heads_noeol(2) b1(2)] .
  ultimately have "reach (extract_head n sh @ ?T) (b @ rest) \<noteq> {}"
    unfolding reach_append by blast
  then show False using m e [of rest] reach_None by simp
qed

section \<open>The lines of a text\<close>

declare bodies.simps [simp del]

lemma blank_simps [simp]: "blank []" "blank (c # s) = (is_space c \<and> blank s)"
  "blank (a @ b) = (blank a \<and> blank b)"
  by (auto simp: blank_def)

lemma rok_simps [simp]: "line_end []" "line_end (c # s) = is_lt c"
  by (auto simp: line_end_def)

lemma dropWhile_blank: "blank w \<Longrightarrow> dropWhile is_space (w @ s) = dropWhile is_space s"
  by (induction w) auto

lemma blank_dropWhile: "blank s \<longleftrightarrow> dropWhile is_space s = []"
  by (induction s) auto

lemma bodies_blank: "blank w \<Longrightarrow> bodies (w @ s) = bodies s"
  by (simp add: bodies.simps [of "w @ s"] bodies.simps [of s] dropWhile_blank)

lemma bodies_Nil: "blank s \<Longrightarrow> bodies s = []"
  by (simp add: bodies.simps [of s] blank_dropWhile)

lemma body_line:
  assumes "body_ok b" and "line_end rest"
  shows "takeWhile (\<lambda>c. \<not> is_lt c) (b @ rest) = b" and "dropWhile (\<lambda>c. \<not> is_lt c) (b @ rest) = rest"
proof -
  have "\<forall>c \<in> set b. \<not> is_lt c" using assms(1) by (simp add: body_ok_def)
  then show "takeWhile (\<lambda>c. \<not> is_lt c) (b @ rest) = b"
    and "dropWhile (\<lambda>c. \<not> is_lt c) (b @ rest) = rest"
    using assms(2) by (cases rest; simp)+
qed

lemma bodies_chunk:
  assumes "blank w" and "body_ok b" and "line_end rest"
  shows "bodies (w @ b @ rest) = b # bodies rest"
proof -
  have d: "dropWhile is_space (w @ b @ rest) = b @ rest"
    using dropWhile_body [OF assms(1,2)] .
  have "b \<noteq> []" using assms(2) by (simp add: body_ok_def)
  then show ?thesis
    by (simp add: bodies.simps [of "w @ b @ rest"] d body_line [OF assms(2,3)])
qed

lemma chunk:
  assumes "\<not> blank s"
  obtains w b rest where "s = w @ b @ rest" "blank w" "body_ok b" "line_end rest"
proof -
  let ?a = "dropWhile is_space s"
  let ?w = "takeWhile is_space s"
  let ?b = "takeWhile (\<lambda>c. \<not> is_lt c) ?a"
  let ?r = "dropWhile (\<lambda>c. \<not> is_lt c) ?a"
  have a: "?a \<noteq> []" using assms blank_dropWhile by blast
  then have h: "\<not> is_space (hd ?a)" using hd_dropWhile [of is_space s] by simp
  then have "\<not> is_lt (hd ?a)" using lt_space by blast
  then have "?b \<noteq> []" "hd ?b = hd ?a" using a by (cases ?a; simp)+
  then have "body_ok ?b" using h by (auto simp: body_ok_def dest: set_takeWhileD)
  moreover have "line_end ?r" using hd_dropWhile [of "\<lambda>c. \<not> is_lt c" ?a] by (auto simp: line_end_def)
  moreover have "blank ?w" by (auto simp: blank_def dest: set_takeWhileD)
  moreover have "s = ?w @ ?b @ ?r" by simp
  ultimately show ?thesis using that by blast
qed

lemma chunk_induct [case_names blank line]:
  assumes "\<And>s. blank s \<Longrightarrow> P s"
    and "\<And>w b rest. blank w \<Longrightarrow> body_ok b \<Longrightarrow> line_end rest \<Longrightarrow> P rest \<Longrightarrow> P (w @ b @ rest)"
  shows "P s"
proof (induction s rule: length_induct)
  case (1 s)
  show ?case
  proof (cases "blank s")
    case True
    then show ?thesis by (rule assms(1))
  next
    case False
    then obtain w b rest where c: "s = w @ b @ rest" "blank w" "body_ok b" "line_end rest"
      by (rule chunk)
    have "b \<noteq> []" using c(3) by (simp add: body_ok_def)
    then have "length rest < length s" using c(1) by simp
    then have "P rest" using 1 by blast
    then show ?thesis using assms(2) [OF c(2,3,4)] c(1) by simp
  qed
qed

lemma bodies_append:
  assumes "x = [] \<or> is_lt (last x) \<or> line_end y"
  shows "bodies (x @ y) = bodies x @ bodies y"
  using assms
proof (induction x rule: chunk_induct)
  case (blank s)
  then show ?case by (simp add: bodies_blank bodies_Nil)
next
  case (line w b rest)
  have b: "b \<noteq> []" "\<not> is_lt (last b)" using line(2) by (auto simp: body_ok_def)
  have r: "rest = [] \<or> is_lt (last rest) \<or> line_end y"
    using line(5) b by (cases "rest = []") auto
  have ry: "line_end (rest @ y)"
  proof (cases "rest = []")
    case True
    then show ?thesis using line(5) b by auto
  next
    case False
    then show ?thesis using line(3) by (cases rest) auto
  qed
  have "bodies ((w @ b @ rest) @ y) = b # bodies (rest @ y)"
    using bodies_chunk [OF line(1,2) ry] by simp
  then show ?case using line(4) [OF r] bodies_chunk [OF line(1,2,3)] by simp
qed

text \<open>The first non-blank line after a line start of a text is one of its bodies.\<close>

lemma bodies_at_bol:
  "s = p @ a \<Longrightarrow> bol_after True p \<Longrightarrow> \<not> blank a
     \<Longrightarrow> \<exists>w b rest. a = w @ b @ rest \<and> blank w \<and> body_ok b \<and> line_end rest \<and> b \<in> set (bodies s)"
proof (induction s arbitrary: p rule: chunk_induct)
  case (blank s)
  then show ?case by simp
next
  case (line w b rest)
  have bn: "b \<noteq> []" and bl: "\<forall>c \<in> set b. \<not> is_lt c" using line(2) by (auto simp: body_ok_def)
  have bs: "bodies (w @ b @ rest) = b # bodies rest" using bodies_chunk [OF line(1,2,3)] .
  from line(5) have "p @ a = w @ (b @ rest)" by simp
  then obtain x where x: "p = w @ x \<and> x @ a = b @ rest \<or> p @ x = w \<and> a = x @ (b @ rest)"
    unfolding append_eq_append_conv2 by blast
  have "(\<exists>us. p @ us = w \<and> a = us @ b @ rest) \<or> (\<exists>us. p = w @ us \<and> us \<noteq> [] \<and> us @ a = b @ rest)"
  proof (cases "x = []")
    case True
    then have "p @ [] = w \<and> a = [] @ b @ rest" using x by auto
    then show ?thesis by blast
  next
    case False
    then show ?thesis using x by auto
  qed
  then consider us where "p @ us = w" "a = us @ b @ rest"
    | us where "p = w @ us" "us \<noteq> []" "us @ a = b @ rest"
    by blast
  then show ?case
  proof cases
    case 1
    then have "blank us" using line(1) by auto
    then show ?thesis using 1(2) line(2,3) bs by auto
  next
    case 2
    have nb: "\<not> (\<exists>vs. us @ vs = b)"
    proof
      assume "\<exists>vs. us @ vs = b"
      then have "last us \<in> set b" using 2(2) by (metis Un_iff last_in_set set_append)
      then show False using line(6) 2(1,2) bl by (simp add: bol_after_def)
    qed
    from 2(3) obtain y where "us = b @ y \<and> y @ a = rest \<or> us @ y = b \<and> a = y @ rest"
      unfolding append_eq_append_conv2 by blast
    then obtain vs where "us = b @ vs" "vs @ a = rest"
      using nb by blast
    moreover from this nb have "vs \<noteq> []" by auto
    ultimately have q: "rest = vs @ a" "bol_after True vs"
      using line(6) 2(1) by (auto simp: bol_after_def)
    from line(4) [OF q line(7)] show ?thesis using bs by auto
  qed
qed

section \<open>Scanning with the line start in view\<close>

lemma rsearch_none_at:
  "anchored re \<Longrightarrow> rsearch re bol (p @ a) = None \<Longrightarrow> bol_after bol p \<Longrightarrow> rmatch (atoms re) a = None"
proof (induction p arbitrary: bol)
  case Nil
  then show ?case by (cases a) (auto simp: match_at_def bol_after_def split: option.splits)
next
  case (Cons c p)
  have "rsearch re (is_lt c) (p @ a) = None"
    using Cons.prems(2) by (auto split: option.splits)
  moreover have "bol_after (is_lt c) p" using Cons.prems(3) by (auto simp: bol_after_def split: if_splits)
  ultimately show ?case using Cons.IH Cons.prems(1) by blast
qed

lemma rsearch_skip_bol:
  assumes an: "anchored re"
  shows "(\<And>p a. u = p @ a \<Longrightarrow> a \<noteq> [] \<Longrightarrow> bol_after bol p \<Longrightarrow> rmatch (atoms re) (a @ t) = None)
           \<Longrightarrow> rsearch re bol (u @ t) = rsearch re (bol_after bol u) t"
proof (induction u arbitrary: bol)
  case Nil
  then show ?case by (simp add: bol_after_def)
next
  case (Cons c u)
  have m: "match_at re bol (c # u @ t) = None"
  proof (cases bol)
    case True
    then show ?thesis using Cons.prems [of "[]" "c # u"] by (simp add: match_at_def bol_after_def)
  next
    case False
    then show ?thesis using an by (simp add: match_at_def)
  qed
  have "rsearch re (is_lt c) (u @ t) = rsearch re (bol_after (is_lt c) u) t"
  proof (rule Cons.IH)
    fix p a assume "u = p @ a" "a \<noteq> []" "bol_after (is_lt c) p"
    then show "rmatch (atoms re) (a @ t) = None"
      using Cons.prems [of "c # p" a] by (auto simp: bol_after_def split: if_splits)
  qed
  then show ?case using m by (simp add: bol_after_def)
qed

lemma replace_all_skip_bol:
  assumes an: "anchored re"
  shows "(\<And>p a. u = p @ a \<Longrightarrow> a \<noteq> [] \<Longrightarrow> bol_after bol p \<Longrightarrow> rmatch (atoms re) (a @ t) = None)
           \<Longrightarrow> replace_all re repl bol (u @ t) = u @ replace_all re repl (bol_after bol u) t"
proof (induction u arbitrary: bol)
  case Nil
  then show ?case by (simp add: bol_after_def)
next
  case (Cons c u)
  have m: "match_at re bol (c # u @ t) = None"
  proof (cases bol)
    case True
    then show ?thesis using Cons.prems [of "[]" "c # u"] by (simp add: match_at_def bol_after_def)
  next
    case False
    then show ?thesis using an by (simp add: match_at_def)
  qed
  have "replace_all re repl (is_lt c) (u @ t) = u @ replace_all re repl (bol_after (is_lt c) u) t"
  proof (rule Cons.IH)
    fix p a assume "u = p @ a" "a \<noteq> []" "bol_after (is_lt c) p"
    then show "rmatch (atoms re) (a @ t) = None"
      using Cons.prems [of "c # p" a] by (auto simp: bol_after_def split: if_splits)
  qed
  then show ?case using replace_all_no_match [OF m] by (simp add: bol_after_def)
qed

lemma count_all_skip_bol:
  assumes an: "anchored re"
  shows "(\<And>p a. u = p @ a \<Longrightarrow> a \<noteq> [] \<Longrightarrow> bol_after bol p \<Longrightarrow> rmatch (atoms re) (a @ t) = None)
           \<Longrightarrow> count_all re bol (u @ t) = count_all re (bol_after bol u) t"
proof (induction u arbitrary: bol)
  case Nil
  then show ?case by (simp add: bol_after_def)
next
  case (Cons c u)
  have m: "match_at re bol (c # u @ t) = None"
  proof (cases bol)
    case True
    then show ?thesis using Cons.prems [of "[]" "c # u"] by (simp add: match_at_def bol_after_def)
  next
    case False
    then show ?thesis using an by (simp add: match_at_def)
  qed
  have "count_all re (is_lt c) (u @ t) = count_all re (bol_after (is_lt c) u) t"
  proof (rule Cons.IH)
    fix p a assume "u = p @ a" "a \<noteq> []" "bol_after (is_lt c) p"
    then show "rmatch (atoms re) (a @ t) = None"
      using Cons.prems [of "c # p" a] by (auto simp: bol_after_def split: if_splits)
  qed
  then show ?case using count_all_no_match [OF m] by (simp add: bol_after_def)
qed

section \<open>The removal, line by line\<close>

lemma chunk_positions:
  assumes "w @ b = p @ a" and "a \<noteq> []" and "bol_after True p" and "body_ok b" and "blank w"
  obtains w' where "a = w' @ b" "blank w'"
proof -
  from assms(1) obtain x where x: "w = p @ x \<and> x @ b = a \<or> w @ x = p \<and> b = x @ a"
    unfolding append_eq_append_conv2 by blast
  have "\<not> (w @ x = p \<and> b = x @ a \<and> x \<noteq> [])"
  proof
    assume h: "w @ x = p \<and> b = x @ a \<and> x \<noteq> []"
    then have "last p \<in> set b" by (metis Un_iff last_appendR last_in_set set_append)
    then show False using assms(3,4) h by (auto simp: bol_after_def body_ok_def)
  qed
  then have "(w = p @ x \<and> x @ b = a) \<or> (w = p \<and> a = [] @ b)" using x by auto
  then show ?thesis using that assms(5) by (metis blank_simps(1,3))
qed

lemma remove_blank:
  assumes "name_ok n" and "blank w"
  shows "rmatch (atoms (remove_pattern n sh)) w = None"
proof -
  from head_first(1) [OF assms(1)] obtain l as where H: "remove_head n sh = Lit l # as" "plain l" by blast
  have l: "l \<noteq> []" "\<not> is_space (hd l)" using H(2) by (auto simp: plain_def)
  have d: "dropWhile is_space w = []" using assms(2) blank_dropWhile by blast
  have "rmatch (atoms (remove_pattern n sh)) w
          = rmatch (Lit l # as @ [Star AnyChar, Eol]) (dropWhile is_space w)"
    using star_space_lit [OF l, of "as @ [Star AnyChar, Eol]" w] H(1) by (simp add: atoms_remove)
  also have "\<dots> = rmatch (Lit l # as @ [Star AnyChar, Eol]) []" by (simp only: d)
  also have "\<dots> = None" using l(1) by (simp add: rmatch_Lit)
  finally show ?thesis .
qed

lemma replace_remove_blank:
  assumes "name_ok n" and "blank w"
  shows "replace_all (remove_pattern n sh) [] bol w = w"
proof -
  have "replace_all (remove_pattern n sh) [] bol (w @ []) = w @ replace_all (remove_pattern n sh) [] (bol_after bol w) []"
  proof (rule replace_all_skip)
    fix a assume "suffix a w"
    then have "blank a" using assms(2) by (auto simp: suffix_def)
    then show "rmatch (atoms (remove_pattern n sh)) (a @ []) = None"
      using remove_blank [OF assms(1)] by simp
  qed
  then show ?thesis
    using remove_blank [OF assms(1), of "[]" sh] by (simp add: replace_all_Nil match_at_def)
qed

lemma replace_remove_eol:
  assumes "name_ok n" and "line_end rest"
  shows "line_end (replace_all (remove_pattern n sh) [] False rest)"
proof (cases rest)
  case Nil
  then show ?thesis by (simp add: replace_all_Nil match_at_def)
next
  case (Cons c cs)
  have "match_at (remove_pattern n sh) False (c # cs) = None" by (simp add: match_at_def)
  from replace_all_no_match [OF this] show ?thesis using assms(2) Cons by simp
qed

lemma replace_remove_chunk:
  assumes n: "name_ok n" and w: "blank w" and b: "body_ok b" and rest: "line_end rest"
    and np: "\<not> partial_line (extract_head n sh) b"
  shows "replace_all (remove_pattern n sh) [] True (w @ b @ rest)
           = (if live n sh b then [] else w @ b) @ replace_all (remove_pattern n sh) [] False rest"
proof (cases "live n sh b")
  case True
  have m: "match_at (remove_pattern n sh) True (w @ b @ rest) = Some (None, rest)"
    using remove_at_line [OF n b np w rest] True by (simp add: match_at_def live_def)
  have bn: "b \<noteq> []" "\<not> is_lt (last b)" using b by (auto simp: body_ok_def)
  have len: "length rest < length (w @ b @ rest)" using bn by simp
  have "length (w @ b @ rest) - length rest - 1 = length w + (length b - 1)"
    using bn(1) by (cases b) simp_all
  moreover have "(w @ b @ rest) ! (length w + (length b - 1)) = (b @ rest) ! (length b - 1)"
    by (rule nth_append_length_plus)
  moreover have "(b @ rest) ! (length b - 1) = last b"
    using bn(1) by (simp add: nth_append last_conv_nth)
  ultimately have "(w @ b @ rest) ! (length (w @ b @ rest) - length rest - 1) = last b"
    by simp
  then show ?thesis
    using True bn(2) m len
    by (subst replace_all.simps) (simp del: length_append)
next
  case False
  have "replace_all (remove_pattern n sh) [] True ((w @ b) @ rest)
          = (w @ b) @ replace_all (remove_pattern n sh) [] (bol_after True (w @ b)) rest"
  proof (rule replace_all_skip_bol)
    show "anchored (remove_pattern n sh)" by simp
  next
    fix p a assume pa: "w @ b = p @ a" "a \<noteq> []" "bol_after True p"
    then obtain w' where w': "a = w' @ b" "blank w'" using chunk_positions b w by blast
    show "rmatch (atoms (remove_pattern n sh)) (a @ rest) = None"
      using remove_at_line [OF n b np w'(2) rest] False w'(1) by (simp add: live_def)
  qed
  moreover have "bol_after True (w @ b) = False"
    using b by (auto simp: bol_after_def body_ok_def)
  ultimately show ?thesis using False by simp
qed

text \<open>The removal of the name's lines keeps exactly the lines on which its pattern fails.\<close>

lemma bodies_replace_remove:
  assumes n: "name_ok n"
  shows "tidy n sh s \<Longrightarrow> bol \<or> line_end s
           \<Longrightarrow> bodies (replace_all (remove_pattern n sh) [] bol s) = filter (\<lambda>b. \<not> live n sh b) (bodies s)"
proof (induction s arbitrary: bol rule: chunk_induct)
  case (blank s)
  then show ?case using replace_remove_blank [OF n] by (simp add: bodies_Nil)
next
  case (line w b rest)
  let ?R = "remove_pattern n sh"
  have bs: "bodies (w @ b @ rest) = b # bodies rest" using bodies_chunk [OF line(1,2,3)] .
  have np: "\<not> partial_line (extract_head n sh) b" and t: "tidy n sh rest"
    using line(5) bs by (auto simp: tidy_def)
  have ih: "bodies (replace_all ?R [] False rest) = filter (\<lambda>b. \<not> live n sh b) (bodies rest)"
    using line(4) [OF t, of False] line(3) by simp
  have at_bol: "bodies (replace_all ?R [] True (w' @ b @ rest)) = filter (\<lambda>b. \<not> live n sh b) (b # bodies rest)"
    if w': "blank w'" for w'
  proof (cases "live n sh b")
    case True
    then show ?thesis using replace_remove_chunk [OF n w' line(2,3) np] ih by simp
  next
    case False
    have "bodies (w' @ b @ replace_all ?R [] False rest) = b # bodies (replace_all ?R [] False rest)"
      using bodies_chunk [OF w' line(2) replace_remove_eol [OF n line(3)]] .
    then show ?thesis using replace_remove_chunk [OF n w' line(2,3) np] ih False by simp
  qed
  show ?case
  proof (cases bol)
    case True
    then show ?thesis using at_bol [OF line(1)] bs by simp
  next
    case False
    then have "line_end (w @ b @ rest)" using line(6) by simp
    moreover have "\<not> is_lt (hd b)" "b \<noteq> []" using line(2) lt_space by (auto simp: body_ok_def)
    ultimately obtain c w' where w: "w = c # w'" "is_lt c"
      by (cases w) (auto simp: line_end_def)
    have "match_at ?R False (c # w' @ b @ rest) = None" by (simp add: match_at_def)
    from replace_all_no_match [OF this]
    have "replace_all ?R [] False (w @ b @ rest) = c # replace_all ?R [] True (w' @ b @ rest)"
      using w by simp
    moreover have "blank w'" "is_space c" using line(1) w by auto
    ultimately show ?thesis
      using at_bol [of w'] bodies_blank [of "[c]"] bs False by simp
  qed
qed

section \<open>The blank lines\<close>

lemma collapse_bol: "replace_all blank_lines repl bol s = replace_all blank_lines repl bol' s"
proof (induction s arbitrary: bol bol' rule: length_induct)
  case (1 s)
  have m: "match_at blank_lines bol s = match_at blank_lines bol' s"
    by (simp add: blank_lines_match_at)
  show ?case
  proof (cases "match_at blank_lines bol' s")
    case None
    then show ?thesis
    proof (cases s)
      case Nil
      then show ?thesis using None m by (simp add: replace_all_Nil)
    next
      case (Cons c cs)
      then show ?thesis using None m replace_all_no_match [of blank_lines _ c cs] by simp
    qed
  next
    case (Some gr)
    obtain g rest where gr: "gr = (g, rest)" by (cases gr)
    have suf: "suffix rest s" using Some gr match_at_suffix by blast
    show ?thesis
    proof (cases "length rest < length s")
      case True
      show ?thesis
        using Some gr m True 1 [rule_format, OF True]
        by (subst (1 2) replace_all.simps) simp
    next
      case False
      then have "rest = s" using suf by (metis suffix_length_le le_neq_implies_less suffix_order.eq_iff suffix_def append_eq_append_conv order_le_less)
      then show ?thesis
        using Some gr m False 1
        by (subst (1 2) replace_all.simps) (simp split: list.splits)
    qed
  qed
qed

lemma blank_lines_Nil: "match_at blank_lines bol [] = None"
  by (rule blank_lines_needs_nl) simp

lemma blank_collapse: "blank w \<Longrightarrow> blank (replace_all blank_lines [nl, nl] bol w)"
proof (induction w arbitrary: bol rule: length_induct)
  case (1 w)
  have nlsp: "is_space nl" by (simp add: is_space_def)
  show ?case
  proof (cases "match_at blank_lines bol w")
    case None
    show ?thesis
    proof (cases w)
      case Nil
      then show ?thesis using None by (simp add: replace_all_Nil)
    next
      case (Cons c cs)
      then show ?thesis using None replace_all_no_match [of blank_lines bol c cs] 1 by simp
    qed
  next
    case (Some gr)
    obtain g rest where gr: "gr = (g, rest)" by (cases gr)
    have suf: "suffix rest w" using Some gr match_at_suffix by blast
    then have br: "blank rest" using 1(2) by (auto simp: suffix_def)
    show ?thesis
    proof (cases "length rest < length w")
      case True
      then have "blank (replace_all blank_lines [nl, nl] b' rest)" for b'
        using 1(1) br by blast
      then show ?thesis using Some gr True nlsp
        by (subst replace_all.simps) simp
    next
      case False
      show ?thesis
      proof (cases w)
        case Nil
        then show ?thesis using Some blank_lines_Nil by simp
      next
        case (Cons c cs)
        then have "blank (replace_all blank_lines [nl, nl] b' cs)" for b'
          using 1 by simp
        then show ?thesis using Some gr False Cons nlsp 1(2)
          by (subst replace_all.simps) simp
      qed
    qed
  qed
qed

lemma rok_collapse: "line_end s \<Longrightarrow> line_end (replace_all blank_lines [nl, nl] bol s)"
proof (cases s)
  case Nil
  then show ?thesis using blank_lines_Nil [of bol] by (simp add: replace_all_Nil)
next
  case (Cons c cs)
  assume "line_end s"
  then have c: "is_lt c" using Cons by simp
  have nllt: "is_lt nl" by (simp add: is_lt_def)
  show ?thesis
  proof (cases "match_at blank_lines bol (c # cs)")
    case None
    then show ?thesis using replace_all_no_match [OF None] Cons c by simp
  next
    case (Some gr)
    then show ?thesis using Cons nllt
      by (subst replace_all.simps) (auto split: prod.splits)
  qed
qed

lemma collapse_line:
  assumes "nl \<notin> set u"
  shows "replace_all blank_lines repl bol (u @ rest) = u @ replace_all blank_lines repl bol' rest"
proof -
  have "replace_all blank_lines repl bol (u @ rest)
          = u @ replace_all blank_lines repl (bol_after bol u) rest"
  proof (rule replace_all_skip)
    fix a assume "suffix a u" "a \<noteq> []"
    then have "hd a \<noteq> nl" using assms by (metis hd_in_set in_set_conv_decomp suffix_def Un_iff set_append)
    then have "\<not> prefix [nl] (a @ rest)" using \<open>a \<noteq> []\<close> by (cases a) auto
    then show "rmatch (atoms blank_lines) (a @ rest) = None"
      by (simp add: blank_lines_def rmatch_Lit)
  qed
  then show ?thesis using collapse_bol by simp
qed

text \<open>The clean-up of blank lines changes no line that is not blank.\<close>

lemma bodies_collapse: "bodies (replace_all blank_lines [nl, nl] bol s) = bodies s"
proof (induction s arbitrary: bol rule: chunk_induct)
  case (blank s)
  then show ?case using blank_collapse by (simp add: bodies_Nil)
next
  case (line w b rest)
  obtain x b' where b: "b = x # b'" "\<not> is_space x" "nl \<notin> set b'"
    using line(2) by (cases b) (auto simp: body_ok_def is_lt_def)
  let ?W = "replace_all blank_lines [nl, nl] bol w"
  let ?Y = "replace_all blank_lines [nl, nl] False rest"
  have "replace_all blank_lines [nl, nl] bol (w @ x # (b' @ rest))
          = ?W @ x # replace_all blank_lines [nl, nl] (is_lt x) (b' @ rest)"
    by (rule collapse_split [OF b(2)])
  also have "replace_all blank_lines [nl, nl] (is_lt x) (b' @ rest) = b' @ ?Y"
    by (rule collapse_line [OF b(3)])
  finally have "replace_all blank_lines [nl, nl] bol (w @ b @ rest) = ?W @ b @ ?Y"
    using b(1) by simp
  moreover have "bodies (?W @ b @ ?Y) = b # bodies ?Y"
    using bodies_chunk [OF blank_collapse [OF line(1)] line(2) rok_collapse [OF line(3)]] .
  ultimately show ?case using line(4) bodies_chunk [OF line(1,2,3)] by simp
qed

lemma bodies_removeEnvVariable:
  assumes "name_ok n" and "tidy n sh s"
  shows "bodies (removeEnvVariable s n sh) = filter (\<lambda>b. \<not> live n sh b) (bodies s)"
  using bodies_replace_remove [OF assms, of True] by (simp add: removeEnvVariable_def bodies_collapse)

section \<open>Scanning over lines without an assignment\<close>

lemma remove_before_hash:
  assumes "name_ok n" and "blank w"
  shows "rmatch (atoms (remove_pattern n sh)) (w @ CHR ''#'' # t) = None"
proof -
  from head_first(1) [OF assms(1)] obtain l as where H: "remove_head n sh = Lit l # as" "plain l" by blast
  have l: "l \<noteq> []" "\<not> is_space (hd l)" "hd l \<noteq> CHR ''#''" using H(2) by (auto simp: plain_def)
  have h: "\<not> is_space (CHR ''#'')" by (simp add: is_space_def)
  have d: "dropWhile is_space (w @ CHR ''#'' # t) = CHR ''#'' # t"
    using dropWhile_blank [OF assms(2)] h by simp
  have "rmatch (atoms (remove_pattern n sh)) (w @ CHR ''#'' # t)
          = rmatch (Lit l # as @ [Star AnyChar, Eol]) (dropWhile is_space (w @ CHR ''#'' # t))"
    using star_space_lit [OF l(1,2), of "as @ [Star AnyChar, Eol]" "w @ CHR ''#'' # t"] H(1)
    by (simp add: atoms_remove)
  also have "\<dots> = rmatch (Lit l # as @ [Star AnyChar, Eol]) (CHR ''#'' # t)" by (simp only: d)
  also have "\<dots> = None" using l(1,3) by (cases l) (simp_all add: rmatch_Lit)
  finally show ?thesis .
qed

lemma skip_inert:
  assumes n: "name_ok n" and i: "inert n sh g" and e: "g = [] \<or> is_lt (last g)"
    and pa: "g = p @ a" "a \<noteq> []" "bol_after True p"
  shows "rmatch (atoms (remove_pattern n sh)) (a @ CHR ''#'' # t) = None"
    and "rmatch (atoms (extract_pattern n sh)) (a @ CHR ''#'' # t) = None"
proof -
  show r: "rmatch (atoms (remove_pattern n sh)) (a @ CHR ''#'' # t) = None"
  proof (cases "blank a")
    case True
    then show ?thesis by (rule remove_before_hash [OF n])
  next
    case False
    from bodies_at_bol [OF pa(1,3) False]
    obtain w b rest where c: "a = w @ b @ rest" "blank w" "body_ok b" "line_end rest" "b \<in> set (bodies g)"
      by blast
    have np: "\<not> partial_line (extract_head n sh) b" "\<not> live n sh b" using i c(5) by (auto simp: inert_def)
    have "rest \<noteq> []"
    proof
      assume "rest = []"
      then have "last g = last b" using pa(1) c(1,3) by (simp add: body_ok_def)
      then show False using e pa(1,2) c(3) by (auto simp: body_ok_def)
    qed
    then have "line_end (rest @ CHR ''#'' # t)" using c(4) by (cases rest) auto
    from remove_at_line [OF n c(3) np(1) c(2) this] np(2) c(1) show ?thesis
      by (simp add: live_def)
  qed
  show "rmatch (atoms (extract_pattern n sh)) (a @ CHR ''#'' # t) = None"
    by (rule extract_needs_remove [OF r])
qed

lemma skip_unset:
  assumes n: "name_ok n" and t: "tidy n sh c"
    and none: "rsearch (extract_pattern n sh) True c = None"
    and pa: "c @ sep c @ [nl] = p @ a" "a \<noteq> []" "bol_after True p"
  shows "rmatch (atoms (extract_pattern n sh)) (a @ CHR ''#'' # t') = None"
proof (cases "blank a")
  case True
  then show ?thesis using extract_needs_remove [OF remove_before_hash [OF n]] by blast
next
  case False
  have bs: "blank (sep c @ [nl])" by (simp add: sep_def is_space_def)
  from pa(1) obtain x where x: "c = p @ x \<and> x @ sep c @ [nl] = a \<or> c @ x = p \<and> sep c @ [nl] = x @ a"
    unfolding append_eq_append_conv2 by blast
  have "\<not> (sep c @ [nl] = x @ a)" using False bs by (metis blank_simps(3))
  then have cx: "c = p @ x" "a = x @ sep c @ [nl]" using x by auto
  have nbx: "\<not> blank x" using False cx(2) bs by simp
  from bodies_at_bol [OF cx(1) pa(3) nbx]
  obtain w b rest where c: "x = w @ b @ rest" "blank w" "body_ok b" "line_end rest" "b \<in> set (bodies c)"
    by blast
  have np: "\<not> partial_line (extract_head n sh) b" using t c(5) by (simp add: tidy_def)
  have m: "rmatch (atoms (extract_pattern n sh)) (w @ b @ rest) = None"
    using rsearch_none_at [of "extract_pattern n sh" True p x] none cx(1) pa(3) c(1) by simp
  obtain t2 where t2: "sep c @ [nl] @ CHR ''#'' # t' = nl # t2"
    by (cases "sep c") (auto simp: sep_def split: if_splits)
  from extract_context [OF n c(3) np c(2,4) m, of t2] show ?thesis
    using cx(2) c(1) t2 by simp
qed

section \<open>Partial assignments\<close>

lemma partial_patterns_cuts:
  "partial_patterns n sh
     = map (\<lambda>H1. \<lparr>anchored = True, atoms = Star Space # H1 @ [Star Space, Eol]\<rparr>) (cuts (extract_head n sh))"
  by (simp add: partial_patterns_def extract_head_def remove_head_def)

lemma cuts_subset: "H1 \<in> set (cuts H) \<Longrightarrow> set H1 \<subseteq> set H"
proof (induction H arbitrary: H1)
  case Nil
  then show ?case by simp
next
  case (Cons a H)
  then have "H1 = [] \<or> (\<exists>H'. H1 = a # H' \<and> H' \<in> set (cuts H))"
    by (auto split: if_splits)
  then show ?case using Cons.IH by fastforce
qed


lemma partial_hit:
  assumes c: "H1 \<in> set (cuts H)" and e: "Eol \<notin> set H" and r: "b' \<in> reach H1 b" and bl: "blank b'"
    and w: "blank w" and b: "body_ok b" and rest: "line_end rest"
  shows "rmatch (Star Space # H1 @ [Star Space, Eol]) (w @ b @ rest) \<noteq> None"
proof -
  have e1: "Eol \<notin> set H1" using cuts_subset [OF c] e by blast
  have "run Space (w @ (b @ rest)) = length w"
    using w b by (intro run_all) (auto simp: blank_def body_ok_def)
  then have k: "length w \<le> run Space (w @ b @ rest)" by simp
  have 1: "b' @ rest \<in> reach H1 (b @ rest)" using reach_mono [OF e1 r] .
  have "length b' \<le> run Space (b' @ rest)"
    using run_all [of b' Space "[]"] bl run_mono [of Space b' rest] by (simp add: blank_def)
  moreover have "rest = [] \<or> is_lt (hd rest)" using rest by (simp add: line_end_def)
  ultimately have 2: "rest \<in> reach [Star Space, Eol] (b' @ rest)"
    by (auto intro!: bexI [of _ "length b'"])
  have "rest \<in> reach (H1 @ [Star Space, Eol]) (b @ rest)"
    unfolding reach_append using 1 2 by blast
  then have "rest \<in> reach (Star Space # H1 @ [Star Space, Eol]) (w @ b @ rest)"
    using k by (auto intro!: bexI [of _ "length w"])
  then show ?thesis using reach_None by blast
qed

lemma rsearch_none_tail:
  "rsearch re bol (u @ t) = None \<Longrightarrow> rsearch re (bol_after bol u) t = None"
proof (induction u arbitrary: bol)
  case Nil
  then show ?case by (simp add: bol_after_def)
next
  case (Cons c u)
  then have "rsearch re (is_lt c) (u @ t) = None" by (auto split: option.splits)
  from Cons.IH [OF this] show ?case by (auto simp: bol_after_def split: if_splits)
qed

lemma tidy_chunk:
  assumes "blank w" and "body_ok b" and "line_end rest"
  shows "tidy n sh (w @ b @ rest) \<longleftrightarrow> \<not> partial_line (extract_head n sh) b \<and> tidy n sh rest"
  using bodies_chunk [OF assms] by (simp add: tidy_def)

text \<open>A text without a partial assignment, line by line.\<close>

lemma tidy_no_partial:
  assumes n: "name_ok n"
  shows "(\<forall>p \<in> set (partial_patterns n sh). rsearch p bol s = None) \<Longrightarrow> bol \<or> line_end s \<Longrightarrow> tidy n sh s"
proof (induction s arbitrary: bol rule: chunk_induct)
  case (blank s)
  then show ?case by (simp add: tidy_def bodies_Nil)
next
  case (line w b rest)
  have at_bol: "tidy n sh (w' @ b @ rest)"
    if w': "blank w'" and q: "\<forall>p \<in> set (partial_patterns n sh). rsearch p True (w' @ b @ rest) = None"
    for w'
  proof -
    have "\<not> partial_line (extract_head n sh) b"
    proof
      assume "partial_line (extract_head n sh) b"
      then obtain H1 b' where h: "H1 \<in> set (cuts (extract_head n sh))" "b' \<in> reach H1 b" "blank b'"
        by (auto simp: partial_line_def)
      let ?p = "\<lparr>anchored = True, atoms = Star Space # H1 @ [Star Space, Eol]\<rparr>"
      have "?p \<in> set (partial_patterns n sh)" using h(1) by (simp add: partial_patterns_cuts)
      then have "rsearch ?p True (w' @ b @ rest) = None" using q by blast
      then have "rmatch (atoms ?p) (w' @ b @ rest) = None"
        using rsearch_none_at [of ?p True "[]" "w' @ b @ rest"] by (simp add: bol_after_def)
      then show False
        using partial_hit [OF h(1) heads_noeol(2) h(2,3) w' line(2,3)] by simp
    qed
    moreover have "tidy n sh rest"
    proof (rule line(4) [of False])
      show "\<forall>p \<in> set (partial_patterns n sh). rsearch p False rest = None"
      proof
        fix p assume "p \<in> set (partial_patterns n sh)"
        then have "rsearch p True ((w' @ b) @ rest) = None" using q by simp
        from rsearch_none_tail [OF this] show "rsearch p False rest = None"
          using line(2) by (simp add: bol_after_def body_ok_def)
      qed
      show "False \<or> line_end rest" using line(3) by simp
    qed
    ultimately show ?thesis using tidy_chunk [OF w' line(2,3)] by simp
  qed
  show ?case
  proof (cases bol)
    case True
    then show ?thesis using at_bol [OF line(1)] line(5) by simp
  next
    case False
    then have "line_end (w @ b @ rest)" using line(6) by simp
    moreover have "\<not> is_lt (hd b)" "b \<noteq> []" using line(2) lt_space by (auto simp: body_ok_def)
    ultimately obtain c w' where w: "w = c # w'" "is_lt c"
      by (cases w) (auto simp: line_end_def)
    have "\<forall>p \<in> set (partial_patterns n sh). rsearch p True (w' @ b @ rest) = None"
    proof
      fix p assume "p \<in> set (partial_patterns n sh)"
      then have "rsearch p False (c # w' @ b @ rest) = None" using line(5) False w by simp
      then have "rsearch p (is_lt c) (w' @ b @ rest) = None" by (auto split: option.splits)
      then show "rsearch p True (w' @ b @ rest) = None" using w(2) by simp
    qed
    moreover have "blank w'" "is_space c" using line(1) w by auto
    ultimately have "tidy n sh (w' @ b @ rest)" using at_bol by blast
    then show ?thesis
      using tidy_chunk [OF line(1,2,3)] tidy_chunk [OF \<open>blank w'\<close> line(2,3)] by simp
  qed
qed

lemma no_partial_tidy: "name_ok n \<Longrightarrow> no_partial n sh c \<Longrightarrow> tidy n sh c"
  using tidy_no_partial [of n sh True c] by (simp add: no_partial_def)

section \<open>The lines that are written\<close>








section \<open>The file after a write\<close>

lemma rmatch_group:
  "\<forall>a \<in> set A. \<forall>c. a \<noteq> Grp c \<Longrightarrow> rmatch (A @ Grp c # B) s = Some (g, r)
     \<Longrightarrow> \<forall>a \<in> set B. \<forall>c. a \<noteq> Grp c \<Longrightarrow> \<exists>v. g = Some v \<and> v \<noteq> []"
proof (induction A arbitrary: s)
  case Nil
  then obtain k where k: "k \<in> set (tries 1 (run c s))"
    "map_option (\<lambda>(g, r). (Some (take k s), r)) (rmatch B (drop k s)) = Some (g, r)"
    using first_some_map_SomeD [of "\<lambda>n. map_option (\<lambda>(g, r). (Some (take n s), r)) (rmatch B (drop n s))"
        "tries 1 (run c s)" "(g, r)"]
    by (auto simp: rmatch_Grp)
  then have "g = Some (take k s)" by auto
  moreover have "1 \<le> k" "k \<le> length s" using k(1) run_le_length [of c s] by auto
  ultimately show ?case by (cases s) auto
next
  case (Cons a A)
  have ih: "\<And>s. rmatch (A @ Grp c # B) s = Some (g, r) \<Longrightarrow> \<exists>v. g = Some v \<and> v \<noteq> []"
    using Cons by simp
  show ?case
  proof (cases a)
    case (Lit l)
    then show ?thesis using Cons.prems(2) ih by (auto simp: rmatch_Lit split: if_splits)
  next
    case (Star c')
    then have "first_some (map (\<lambda>n. rmatch (A @ Grp c # B) (drop n s)) (tries 0 (run c' s))) = Some (g, r)"
      using Cons.prems(2) by (simp add: rmatch_Star)
    from first_some_map_SomeD [OF this] obtain k where "rmatch (A @ Grp c # B) (drop k s) = Some (g, r)"
      by blast
    then show ?thesis by (rule ih)
  next
    case (Plus c')
    then have "first_some (map (\<lambda>n. rmatch (A @ Grp c # B) (drop n s)) (tries 1 (run c' s))) = Some (g, r)"
      using Cons.prems(2) by (simp add: rmatch_Plus)
    from first_some_map_SomeD [OF this] obtain k where "rmatch (A @ Grp c # B) (drop k s) = Some (g, r)"
      by blast
    then show ?thesis by (rule ih)
  next
    case (Opt c')
    then have "first_some (map (\<lambda>n. rmatch (A @ Grp c # B) (drop n s)) (tries 0 (min 1 (run c' s))))
                 = Some (g, r)"
      using Cons.prems(2) by (simp add: rmatch_Opt)
    from first_some_map_SomeD [OF this] obtain k where "rmatch (A @ Grp c # B) (drop k s) = Some (g, r)"
      by blast
    then show ?thesis by (rule ih)
  next
    case (Grp c')
    then show ?thesis using Cons.prems(1) by simp
  next
    case Eol
    then show ?thesis using Cons.prems(2) ih by (auto simp: rmatch_Eol split: if_splits)
  qed
qed

lemma extract_group:
  assumes "rmatch (atoms (extract_pattern n sh)) s = Some (g, r)"
  shows "\<exists>v. g = Some v \<and> v \<noteq> []"
proof -
  have "atoms (extract_pattern n sh) = (Star Space # extract_head n sh @ [Opt Quote]) @ Grp ValueChar # [Opt Quote]"
    by (simp add: atoms_extract)
  moreover have "\<forall>a \<in> set (Star Space # extract_head n sh @ [Opt Quote]). \<forall>c. a \<noteq> Grp c"
    by (auto simp: extract_head_def remove_head_def)
  ultimately show ?thesis
    using rmatch_group [where A = "Star Space # extract_head n sh @ [Opt Quote]" and c = ValueChar
        and B = "[Opt Quote]" and s = s and g = g and r = r] assms
    by simp
qed

lemma rsearch_SomeD: "rsearch re bol s = Some m \<Longrightarrow> \<exists>a. rmatch (atoms re) a = Some m"
proof (induction s arbitrary: bol)
  case Nil
  then show ?case by (auto simp: match_at_def split: if_splits)
next
  case (Cons c s)
  then show ?case by (auto simp: match_at_def split: option.splits if_splits)
qed

lemma extract_cases:
  "extractEnvVariable c n sh = None \<and> rsearch (extract_pattern n sh) True c = None
   \<or> truthy_opt (extractEnvVariable c n sh)"
proof (cases "rsearch (extract_pattern n sh) True c")
  case None
  then show ?thesis by (simp add: extract_search)
next
  case (Some m)
  obtain g r where m: "m = (g, r)" by (cases m)
  from rsearch_SomeD [OF Some] m extract_group obtain v where "g = Some v" "v \<noteq> []" by blast
  then show ?thesis using Some m by (simp add: extract_search)
qed

lemma written_scan:
  assumes skip: "\<And>p a t. c @ sep c @ [nl] = p @ a \<Longrightarrow> a \<noteq> [] \<Longrightarrow> bol_after True p
                   \<Longrightarrow> rmatch (atoms re) (a @ CHR ''#'' # t) = None"
    and an: "anchored re" and q: "quiet re []" and cm: "comment_ok cm"
  shows "rsearch re True (written st sh c cm n v) = rsearch re True (exportLine st sh n v @ [nl])"
    and "count_all re True (written st sh c cm n v) = count_all re True (exportLine st sh n v @ [nl])"
proof -
  let ?g = "c @ sep c @ [nl]"
  let ?t = "''# '' @ cm @ [nl] @ (exportLine st sh n v @ [nl])"
  have w: "written st sh c cm n v = ?g @ ?t" by (simp add: written_def)
  have sk: "rmatch (atoms re) (a @ ?t) = None" if "?g = p @ a" "a \<noteq> []" "bol_after True p" for p a
    using skip [OF that] by simp
  have b: "bol_after True ?g" by (simp add: bol_after_def is_lt_def)
  have "rsearch re True (?g @ ?t) = rsearch re (bol_after True ?g) ?t"
    by (rule rsearch_skip_bol [OF an]) (rule sk)
  also have "\<dots> = rsearch re True (exportLine st sh n v @ [nl])"
    using search_block [OF q cm, of "bol_after True ?g" "exportLine st sh n v @ [nl]"] by simp
  finally show "rsearch re True (written st sh c cm n v) = rsearch re True (exportLine st sh n v @ [nl])"
    using w by simp
  have "count_all re True (?g @ ?t) = count_all re (bol_after True ?g) ?t"
    by (rule count_all_skip_bol [OF an]) (rule sk)
  also have "\<dots> = count_all re True (exportLine st sh n v @ [nl])"
    using count_block [OF q cm, of "bol_after True ?g" "exportLine st sh n v @ [nl]"] by simp
  finally show "count_all re True (written st sh c cm n v) = count_all re True (exportLine st sh n v @ [nl])"
    using w by simp
qed

lemma quiet_Nil:
  assumes "name_ok n"
  shows "quiet (extract_pattern n sh) []" and "quiet (remove_pattern n sh) []"
  using quiet_patterns [OF assms, of "[]" sh] assms by (auto simp: name_ok_def)

lemma inert_sep:
  assumes "inert n sh k"
  shows "inert n sh (k @ sep k @ [nl])"
proof -
  have nllt: "is_lt nl" "is_space nl" by (simp_all add: is_lt_def is_space_def)
  have "bodies (k @ sep k @ [nl]) = bodies k"
    using bodies_append [of k "sep k @ [nl]"] bodies_Nil [of "sep k @ [nl]"] nllt
    by (cases "sep k") (auto simp: sep_def split: if_splits)
  then show ?thesis using assms by (simp add: inert_def)
qed

lemma line_search:
  assumes "supported sh" and "name_ok n" and "value_ok v"
  shows "rsearch (extract_pattern n sh) True (exportLine st sh n v @ [nl]) = Some (Some v, [nl])"
  by (rule rsearch_hit) (rule line_extract [OF assms])

lemma written_extract_inert:
  assumes sh: "supported sh" and n: "name_ok n" and v: "value_ok v" and cm: "comment_ok cm"
    and i: "inert n sh k"
  shows "extractEnvVariable (written st sh k cm n v) n sh = Some v"
proof -
  have e: "k @ sep k @ [nl] = [] \<or> is_lt (last (k @ sep k @ [nl]))" by (simp add: is_lt_def)
  have "rsearch (extract_pattern n sh) True (written st sh k cm n v)
          = rsearch (extract_pattern n sh) True (exportLine st sh n v @ [nl])"
    by (rule written_scan(1) [OF skip_inert(2) [OF n inert_sep [OF i] e] _ quiet_Nil(1) [OF n] cm])
       simp_all
  then show ?thesis using line_search [OF sh n v] by (simp add: extract_search)
qed


lemma written_extract_unset:
  assumes sh: "supported sh" and n: "name_ok n" and v: "value_ok v" and cm: "comment_ok cm"
    and t: "tidy n sh c" and none: "rsearch (extract_pattern n sh) True c = None"
  shows "extractEnvVariable (written st sh c cm n v) n sh = Some v"
proof -
  have "rsearch (extract_pattern n sh) True (written st sh c cm n v)
          = rsearch (extract_pattern n sh) True (exportLine st sh n v @ [nl])"
    by (rule written_scan(1) [OF skip_unset [OF n t none] _ quiet_Nil(1) [OF n] cm]) simp_all
  then show ?thesis using line_search [OF sh n v] by (simp add: extract_search)
qed

lemma removed_inert:
  assumes "name_ok n" and "tidy n sh c"
  shows "inert n sh (removeEnvVariable c n sh)"
  using bodies_removeEnvVariable [OF assms] assms(2) by (auto simp: inert_def tidy_def)

lemma write_kept:
  assumes "supported sh" and "detectShell st = sh" and "opt_shell options = None"
    and "opt_overwrite options \<noteq> Some False"
    and "getShellConfigPath st sh \<notin> unreadable st" and "getShellConfigPath st sh \<notin> unwritable st"
  shows "writeEnvVariable st n v options =
           (True, st\<lparr>files := (files st)(getShellConfigPath st sh \<mapsto>
              written st sh (kept (content_of st (getShellConfigPath st sh)) n sh)
                (comment_of st options) n v)\<rparr>)"
proof (cases "truthy_opt (extractEnvVariable (content_of st (getShellConfigPath st sh)) n sh)")
  case True
  then show ?thesis using write_update [OF assms True] by (simp add: kept_def)
next
  case False
  then have "extractEnvVariable (content_of st (getShellConfigPath st sh)) n sh = None"
    using extract_cases by blast
  from write_new [OF assms(1,2,3,5,6) this] show ?thesis using False by (simp add: kept_def)
qed

lemma written_kept_extract:
  assumes sh: "supported sh" and n: "name_ok n" and v: "value_ok v" and cm: "comment_ok cm"
    and t: "tidy n sh c"
  shows "extractEnvVariable (written st sh (kept c n sh) cm n v) n sh = Some v"
proof (cases "truthy_opt (extractEnvVariable c n sh)")
  case True
  then show ?thesis
    using written_extract_inert [OF sh n v cm removed_inert [OF n t]] by (simp add: kept_def)
next
  case False
  then have "rsearch (extract_pattern n sh) True c = None" using extract_cases by blast
  from written_extract_unset [OF sh n v cm t this] show ?thesis using False by (simp add: kept_def)
qed




section \<open>Masking of the API key\<close>

text \<open>
  C7: for a key of at least 12 characters \<open>maskApiKey\<close> returns a string of the same length
  with the first 8 and the last 4 characters of the key and a \<open>*\<close> at every position in
  between; for a key of fewer than 8 characters it returns \<open>****\<close>.
\<close>

theorem maskApiKey_masks:
  "(12 \<le> length k \<longrightarrow>
      length (maskApiKey k) = length k
      \<and> take 8 (maskApiKey k) = take 8 k
      \<and> drop (length k - 4) (maskApiKey k) = drop (length k - 4) k
      \<and> (\<forall>i. 8 \<le> i \<and> i < length k - 4 \<longrightarrow> maskApiKey k ! i = CHR ''*''))
   \<and> (length k < 8 \<longrightarrow> maskApiKey k = ''****'')"
  by (auto simp: maskApiKey_def Let_def nth_append min_def)

theorem maskApiKey_masks_witness:
  "12 \<le> length ''PMAK-0123456789abcdef''
   \<and> maskApiKey ''PMAK-0123456789abcdef'' ! 8 = CHR ''*''
   \<and> length ''PMAK-01'' < 8 \<and> maskApiKey ''PMAK-01'' = ''****''"
  using maskApiKey_masks [of "''PMAK-0123456789abcdef''"] maskApiKey_masks [of "''PMAK-01''"]
  by simp

text \<open>
  C10: for a key of 8 to 11 characters \<open>maskApiKey\<close> returns the first 8 characters followed
  directly by the last 4: a string of 12 characters, longer than the key, with no mask
  character added, in which every character of the key can be read, either in the first
  segment or in the second (the two segments overlap in the key).
\<close>

theorem maskApiKey_short_reveals:
  "8 \<le> length k \<and> length k \<le> 11 \<longrightarrow>
     maskApiKey k = take 8 k @ drop (length k - 4) k
     \<and> length (maskApiKey k) = 12
     \<and> length k < length (maskApiKey k)
     \<and> (\<forall>c \<in> set (maskApiKey k). c \<in> set k)
     \<and> (\<forall>i < length k. (i < 8 \<and> maskApiKey k ! i = k ! i)
            \<or> (length k - 4 \<le> i \<and> maskApiKey k ! (8 + (i - (length k - 4))) = k ! i))"
  by (auto simp: maskApiKey_def Let_def nth_append min_def dest: in_set_takeD in_set_dropD)

theorem maskApiKey_short_reveals_witness:
  "8 \<le> length ''PMAK-0123'' \<and> length ''PMAK-0123'' \<le> 11
   \<and> maskApiKey ''PMAK-0123'' = ''PMAK-0120123''"
  using maskApiKey_short_reveals [of "''PMAK-0123''"] by simp

section \<open>The validation gate of the credential store\<close>

text \<open>
  C6: \<open>storeApiKey\<close> of a value that is not a string, is the empty string, lacks the prefix
  \<open>PMAK-\<close> or has fewer than 20 characters returns \<open>false\<close> and leaves the whole state, so
  every file, as it was; a key \<open>PMAK-\<close> followed by 20 characters passes the validation and
  \<open>storeApiKey\<close> goes on to \<open>writeEnvVariable\<close>, whose outcome and files it returns.
\<close>

theorem storeApiKey_gate:
  "(\<not> is_string v \<or> v = JStr [] \<or> (\<exists>k. v = JStr k \<and> (\<not> prefix ''PMAK-'' k \<or> length k < 20))
      \<longrightarrow> storeApiKey st v = (False, st))
   \<and> (length s = 20 \<longrightarrow>
        validateApiKey (JStr (''PMAK-'' @ s))
        \<and> fst (storeApiKey st (JStr (''PMAK-'' @ s)))
            = fst (writeEnvVariable st POSTMAN_API_KEY (''PMAK-'' @ s)
                    \<lparr>opt_shell = None, opt_comment = Some ''Postman API Key for flowman-cli'',
                     opt_overwrite = Some True\<rparr>)
        \<and> files (snd (storeApiKey st (JStr (''PMAK-'' @ s))))
            = files (snd (writeEnvVariable st POSTMAN_API_KEY (''PMAK-'' @ s)
                    \<lparr>opt_shell = None, opt_comment = Some ''Postman API Key for flowman-cli'',
                     opt_overwrite = Some True\<rparr>)))"
proof -
  have gate: "\<not> validateApiKey v \<Longrightarrow> storeApiKey st v = (False, st)" for v
    by (simp add: storeApiKey_def)
  have bad: "\<not> is_string v \<or> v = JStr [] \<or> (\<exists>k. v = JStr k \<and> (\<not> prefix ''PMAK-'' k \<or> length k < 20))
      \<Longrightarrow> \<not> validateApiKey v"
    by (cases v) (auto simp: validateApiKey_def)
  have good: "length s = 20 \<Longrightarrow> validateApiKey (JStr (''PMAK-'' @ s))"
    by (simp add: validateApiKey_def)
  show ?thesis
    using gate bad good
    by (auto simp: storeApiKey_def split: prod.splits)
qed

theorem storeApiKey_gate_witness:
  "storeApiKey (fresh ''bash'') (JStr ''bad-key'') = (False, fresh ''bash'')
   \<and> length ''0123456789abcdefghij'' = 20
   \<and> fst (storeApiKey (fresh ''bash'') (JStr ''PMAK-0123456789abcdefghij''))
   \<and> files (snd (storeApiKey (fresh ''bash'') (JStr ''PMAK-0123456789abcdefghij'')))
        ''/home/u/.bashrc'' \<noteq> None"
proof -
  have w: "fst (writeEnvVariable (fresh ''bash'') POSTMAN_API_KEY (''PMAK-'' @ ''0123456789abcdefghij'')
                    \<lparr>opt_shell = None, opt_comment = Some ''Postman API Key for flowman-cli'',
                     opt_overwrite = Some True\<rparr>)
         \<and> files (snd (writeEnvVariable (fresh ''bash'') POSTMAN_API_KEY (''PMAK-'' @ ''0123456789abcdefghij'')
                    \<lparr>opt_shell = None, opt_comment = Some ''Postman API Key for flowman-cli'',
                     opt_overwrite = Some True\<rparr>)) ''/home/u/.bashrc'' \<noteq> None"
    by code_simp
  show ?thesis
    using storeApiKey_gate [of "JStr ''bad-key''" "fresh ''bash''" "''0123456789abcdefghij''"] w
    by simp
qed

section \<open>Clearing the credentials\<close>

lemma removeEnvVariable_call_api_key:
  "removeEnvVariable_call POSTMAN_API_KEY = ''POSTMAN_API_KEY''"
  by code_simp

lemma removeEnvVariable_call_workspace_id:
  "removeEnvVariable_call POSTMAN_WORKSPACE_ID = ''POSTMAN_WORKSPACE_ID''"
  by code_simp

text \<open>
  C1, at the input of the spec's rollback scenario: a process under bash with no config
  file, the key \<open>PMAK-validformat-butremoterejects\<close> and a remote validation that rejects
  every key. The call reports failure, but \<open>clearCredentials\<close> has only emptied the process
  environment: the config file still holds the assignment line and a read of the API key
  returns the rejected key.
\<close>

theorem authenticate_rollback_keeps_file:
  "fst (authenticateWithApiKey (\<lambda>k. False) (fresh ''bash'')
          (JStr ''PMAK-validformat-butremoterejects'') JNull) = False
   \<and> getApiKey (snd (authenticateWithApiKey (\<lambda>k. False) (fresh ''bash'')
          (JStr ''PMAK-validformat-butremoterejects'') JNull))
       = JStr ''PMAK-validformat-butremoterejects''
   \<and> extractEnvVariable (the (files (snd (authenticateWithApiKey (\<lambda>k. False) (fresh ''bash'')
         (JStr ''PMAK-validformat-butremoterejects'') JNull)) ''/home/u/.bashrc''))
         POSTMAN_API_KEY ''bash''
       = Some ''PMAK-validformat-butremoterejects''"
  by code_simp

text \<open>
  C2, at \<open>write(X, v)\<close> into a fresh bash config file followed by the public
  \<open>removeEnvVariable(X)\<close>: the call is the content transform applied to the name, it returns
  the name and touches no file, so the state after it is the state before it and a read
  still returns \<open>v\<close>. The shadowed file-level method, had it been called, would have
  stripped the line.
\<close>

theorem remove_call_keeps_line:
  "removeEnvVariable_call ''X'' = ''X''
   \<and> readEnvVariable (snd (writeEnvVariable (fresh ''bash'') ''X'' ''v'' no_options)) ''X'' = JStr ''v''
   \<and> readEnvVariable
        (snd (removeEnvVariable_file (snd (writeEnvVariable (fresh ''bash'') ''X'' ''v'' no_options))
                ''X'' None)) ''X'' = JNull"
  by code_simp

text \<open>
  C8, as the claim states it, fails where neither variable exists: with no config file and
  neither variable in the environment \<open>clearCredentials\<close> still reports success.
\<close>

theorem clearCredentials_nothing_to_clear_counterexample:
  "readEnvVariable (fresh ''bash'') POSTMAN_API_KEY = JNull
   \<and> readEnvVariable (fresh ''bash'') POSTMAN_WORKSPACE_ID = JNull
   \<and> fst (clearCredentials (fresh ''bash'')) = True"
  by code_simp

text \<open>
  C8, amended: where the config file is absent or can be read and written,
  \<open>clearCredentials\<close> reports success when a variable existed and also when neither did, and
  so does \<open>logout\<close>, which returns the result of \<open>clearCredentials\<close> and makes no remote call
  (it has no access to the remote collaborator): a second logout, when already logged out,
  still reports success. Success of a removal means that it did not fail, not that it
  changed the file: the file-level removal that the class also declares reports true as
  well, whether or not the file or the variable exists.
\<close>

theorem clearCredentials_reports_success:
  "getShellConfigPath st (detectShell st) \<notin> unreadable st \<union> unwritable st \<longrightarrow>
     fst (clearCredentials st)
     \<and> logout st = clearCredentials st
     \<and> fst (logout (snd (logout st)))
     \<and> fst (removeEnvVariable_file st POSTMAN_API_KEY None)
     \<and> fst (removeEnvVariable_file st POSTMAN_WORKSPACE_ID None)"
  by (simp add: clearCredentials_def logout_def removeEnvVariable_call_api_key
        removeEnvVariable_call_workspace_id removeEnvVariable_file_def Let_def POSTMAN_API_KEY_def)

theorem clearCredentials_reports_success_witness:
  "getShellConfigPath (fresh ''zsh'') (detectShell (fresh ''zsh''))
      \<notin> unreadable (fresh ''zsh'') \<union> unwritable (fresh ''zsh'')
   \<and> readEnvVariable (fresh ''zsh'') POSTMAN_API_KEY = JNull
   \<and> fst (clearCredentials (fresh ''zsh''))
   \<and> fst (logout (snd (logout (fresh ''zsh''))))
   \<and> fst (removeEnvVariable_file (fresh ''zsh'') POSTMAN_API_KEY None)"
proof -
  have h: "getShellConfigPath (fresh ''zsh'') (detectShell (fresh ''zsh''))
      \<notin> unreadable (fresh ''zsh'') \<union> unwritable (fresh ''zsh'')"
    "readEnvVariable (fresh ''zsh'') POSTMAN_API_KEY = JNull"
    by code_simp+
  show ?thesis
    using clearCredentials_reports_success [of "fresh ''zsh''"] h by blast
qed

section \<open>Writing and reading a variable\<close>

text \<open>
  C3, as the claim states it, fails in four ways, each at a state the program can be in:
  a value with a double quote is read back cut at the quote; a value already in the process
  environment is read instead of the one just written (\<open>writeEnvVariable\<close> writes the file
  only); for a name that \<open>process.env\<close> inherits from \<open>Object.prototype\<close>, such as
  \<open>toString\<close>, the read returns the inherited function; and under fish a config file that
  ends in the partial assignment \<open>set -gx X\<close> makes the read return the comment line of the
  block just written.
\<close>

theorem write_then_read_counterexample:
  "readEnvVariable (snd (writeEnvVariable (fresh ''bash'') ''X'' (''a'' @ [dq] @ ''b'') no_options)) ''X''
     = JStr ''a''
   \<and> readEnvVariable (snd (writeEnvVariable ((fresh ''bash'')\<lparr>env := (env (fresh ''bash''))(''X'' \<mapsto> ''old'')\<rparr>)
        ''X'' ''new'' no_options)) ''X'' = JStr ''old''
   \<and> readEnvVariable (snd (writeEnvVariable (fresh ''bash'') ''toString'' ''v'' no_options)) ''toString''
     = JObj ''toString''
   \<and> readEnvVariable (snd (writeEnvVariable
        ((fresh ''fish'')\<lparr>files := [''/home/u/.config/fish/config.fish'' \<mapsto> ''set -gx X'']\<rparr>)
        ''X'' ''v'' no_options)) ''X'' = JStr ''# Added by flowman-cli''"
  by code_simp

text \<open>
  C3, amended: for a name of letters, digits and underscores, a non-empty value without
  double quote, single quote and newline (spaces allowed), and each of bash, zsh, fish and
  powershell as the detected shell: when \<open>process.env\<close> gives no truthy value for the name
  (no variable of that name or an empty one, and not an inherited property), overwriting
  is not switched off, the config file can be read and written, no line of it is a partial
  assignment, and the comment has no line break, \<open>writeEnvVariable\<close> succeeds and
  \<open>readEnvVariable\<close> then returns exactly the written value. The file may hold anything
  else: assignments of the name written by hand or by an earlier call, other variables
  whose names contain the name, comments that mention it.
\<close>

theorem write_then_read:
  assumes "supported sh" and "detectShell st = sh" and "name_ok n" and "value_ok v"
    and "opt_shell options = None" and "opt_overwrite options \<noteq> Some False"
    and "comment_ok (comment_of st options)"
    and "getShellConfigPath st sh \<notin> unreadable st" and "getShellConfigPath st sh \<notin> unwritable st"
    and "\<not> truthy (env_get st n)"
    and "no_partial n sh (content_of st (getShellConfigPath st sh))"
  shows "fst (writeEnvVariable st n v options)
         \<and> readEnvVariable (snd (writeEnvVariable st n v options)) n = JStr v"
proof -
  let ?p = "getShellConfigPath st sh"
  let ?new = "written st sh (kept (content_of st ?p) n sh) (comment_of st options) n v"
  have t: "tidy n sh (content_of st ?p)" by (rule no_partial_tidy [OF assms(3,11)])
  have w: "writeEnvVariable st n v options = (True, st\<lparr>files := (files st)(?p \<mapsto> ?new)\<rparr>)"
    by (rule write_kept [OF assms(1,2,5,6,8,9)])
  have e: "extractEnvVariable ?new n sh = Some v"
    by (rule written_kept_extract [OF assms(1,3,4,7) t])
  have "readEnvVariable (st\<lparr>files := (files st)(?p \<mapsto> ?new)\<rparr>) n = JStr (the (extractEnvVariable ?new n sh))"
    by (rule read_after_write [OF assms(1,2,10,8)]) (use e assms(4) in \<open>simp add: value_ok_def\<close>)
  then show ?thesis using w e by simp
qed

theorem write_then_read_witness:
  "readEnvVariable (snd (writeEnvVariable settled ''API_KEY'' ''a b c'' no_options)) ''API_KEY''
     = JStr ''a b c''
   \<and> readEnvVariable (snd (writeEnvVariable (fresh ''zsh'') ''API_KEY'' ''a b c'' no_options)) ''API_KEY''
     = JStr ''a b c''
   \<and> readEnvVariable (snd (writeEnvVariable (fresh ''fish'') ''API_KEY'' ''a b c'' no_options)) ''API_KEY''
     = JStr ''a b c''
   \<and> readEnvVariable (snd (writeEnvVariable (fresh ''powershell'') ''API_KEY'' ''a b c'' no_options)) ''API_KEY''
     = JStr ''a b c''"
proof -
  have v: "name_ok ''API_KEY''" "value_ok ''a b c''" "opt_shell no_options = None"
    "opt_overwrite no_options \<noteq> Some False"
    by code_simp+
  have bh: "supported ''bash''" "detectShell settled = ''bash''"
    "comment_ok (comment_of settled no_options)"
    "getShellConfigPath settled ''bash'' \<notin> unreadable settled"
    "getShellConfigPath settled ''bash'' \<notin> unwritable settled"
    "\<not> truthy (env_get settled ''API_KEY'')"
    "no_partial ''API_KEY'' ''bash'' (content_of settled (getShellConfigPath settled ''bash''))"
    by code_simp+
  have zh: "supported ''zsh''" "detectShell (fresh ''zsh'') = ''zsh''"
    "comment_ok (comment_of (fresh ''zsh'') no_options)"
    "getShellConfigPath (fresh ''zsh'') ''zsh'' \<notin> unreadable (fresh ''zsh'')"
    "getShellConfigPath (fresh ''zsh'') ''zsh'' \<notin> unwritable (fresh ''zsh'')"
    "\<not> truthy (env_get (fresh ''zsh'') ''API_KEY'')"
    "no_partial ''API_KEY'' ''zsh'' (content_of (fresh ''zsh'') (getShellConfigPath (fresh ''zsh'') ''zsh''))"
    by code_simp+
  have fh: "supported ''fish''" "detectShell (fresh ''fish'') = ''fish''"
    "comment_ok (comment_of (fresh ''fish'') no_options)"
    "getShellConfigPath (fresh ''fish'') ''fish'' \<notin> unreadable (fresh ''fish'')"
    "getShellConfigPath (fresh ''fish'') ''fish'' \<notin> unwritable (fresh ''fish'')"
    "\<not> truthy (env_get (fresh ''fish'') ''API_KEY'')"
    "no_partial ''API_KEY'' ''fish'' (content_of (fresh ''fish'') (getShellConfigPath (fresh ''fish'') ''fish''))"
    by code_simp+
  have ph: "supported ''powershell''" "detectShell (fresh ''powershell'') = ''powershell''"
    "comment_ok (comment_of (fresh ''powershell'') no_options)"
    "getShellConfigPath (fresh ''powershell'') ''powershell'' \<notin> unreadable (fresh ''powershell'')"
    "getShellConfigPath (fresh ''powershell'') ''powershell'' \<notin> unwritable (fresh ''powershell'')"
    "\<not> truthy (env_get (fresh ''powershell'') ''API_KEY'')"
    "no_partial ''API_KEY'' ''powershell''
       (content_of (fresh ''powershell'') (getShellConfigPath (fresh ''powershell'') ''powershell''))"
    by code_simp+
  show ?thesis
    using write_then_read [OF bh(1,2) v(1,2,3,4) bh(3-)] write_then_read [OF zh(1,2) v(1,2,3,4) zh(3-)]
      write_then_read [OF fh(1,2) v(1,2,3,4) fh(3-)] write_then_read [OF ph(1,2) v(1,2,3,4) ph(3-)]
    by simp
qed




section \<open>Empty values\<close>

lemma readEnvVariable_not_empty_string: "readEnvVariable st n \<noteq> JStr []"
  using read_paths_not_empty [of st n "detectShell st" "getAllShellConfigPaths st (detectShell st)"]
  by (cases "env st n")
     (auto simp: readEnvVariable_def env_get_def Let_def split: option.splits if_splits)

text \<open>
  C9, at the assignment line that \<open>writeEnvVariable\<close> itself writes for an empty value under
  powershell, \<open>$env:API_KEY = ""\<close>: the extraction pattern matches it, because \<open>\s*\<close> after
  \<open>=\<close> gives its space back to the capture group, and the read returns a single space, a
  value that was never written. The fish pattern does the same where two spaces stand
  before the empty quoted value. At the same call under bash, zsh and fish the line is not
  matched and the variable is reported absent, as the claim says.
\<close>

theorem read_empty_value_powershell:
  "exportLine (fresh ''powershell'') ''powershell'' ''API_KEY'' [] = ''$env:API_KEY = '' @ [dq, dq]
   \<and> match_at (extract_pattern ''API_KEY'' ''powershell'') True (''$env:API_KEY = '' @ [dq, dq])
       = Some (Some '' '', [dq])
   \<and> extractEnvVariable (''$env:API_KEY = '' @ [dq, dq]) ''API_KEY'' ''powershell'' = Some '' ''
   \<and> readEnvVariable (snd (writeEnvVariable (fresh ''powershell'') ''API_KEY'' [] no_options)) ''API_KEY''
       = JStr '' ''
   \<and> extractEnvVariable (''set -gx API_KEY  '' @ [dq, dq]) ''API_KEY'' ''fish'' = Some '' ''
   \<and> extractEnvVariable (''export API_KEY='' @ [dq, dq]) ''API_KEY'' ''bash'' = None
   \<and> readEnvVariable (snd (writeEnvVariable (fresh ''bash'') ''API_KEY'' [] no_options)) ''API_KEY''
       = JNull
   \<and> readEnvVariable (snd (writeEnvVariable (fresh ''zsh'') ''API_KEY'' [] no_options)) ''API_KEY''
       = JNull
   \<and> readEnvVariable (snd (writeEnvVariable (fresh ''fish'') ''API_KEY'' [] no_options)) ''API_KEY''
       = JNull"
  by code_simp

section \<open>Isolation across names\<close>

text \<open>
  C5, at a fish config file in which a line \<open>set -gx API_KEY\<close> without a value stands
  directly before the assignment line of \<open>API_KEY_SECONDARY\<close>: the white space after the
  name in the fish patterns reaches over the line break, so reading \<open>API_KEY\<close> returns text
  of the other line, the removal of \<open>API_KEY\<close> deletes the other line, and after
  \<open>writeEnvVariable\<close> of \<open>API_KEY\<close> the other variable is gone. The names need not be related
  (\<open>FOO\<close> and \<open>BAR\<close>), and the powershell extraction pattern reaches over the line break
  after \<open>=\<close> in the same way. The bash and zsh patterns, on the file of the same shape,
  leave the other line alone.
\<close>

theorem remove_deletes_other_line:
  "extractEnvVariable dangling ''API_KEY_SECONDARY'' ''fish'' = Some ''s''
   \<and> extractEnvVariable dangling ''API_KEY'' ''fish'' = Some ''set -gx API_KEY_SECONDARY ''
   \<and> removeEnvVariable dangling ''API_KEY'' ''fish'' = [nl]
   \<and> extractEnvVariable
        (content_of (snd (writeEnvVariable
            ((fresh ''fish'')\<lparr>files := [''/home/u/.config/fish/config.fish'' \<mapsto> dangling]\<rparr>)
            ''API_KEY'' ''k'' no_options)) ''/home/u/.config/fish/config.fish'')
        ''API_KEY_SECONDARY'' ''fish'' = None
   \<and> removeEnvVariable (''set -gx FOO'' @ [nl] @ ''set -gx BAR '' @ [dq] @ ''b'' @ [dq, nl]) ''FOO'' ''fish''
       = [nl]
   \<and> extractEnvVariable
        (''$env:API_KEY ='' @ [nl] @ ''$env:API_KEY_SECONDARY = '' @ [dq] @ ''s'' @ [dq, nl])
        ''API_KEY'' ''powershell'' = Some ''$env:API_KEY_SECONDARY = ''
   \<and> removeEnvVariable
        (''export API_KEY'' @ [nl] @ ''export API_KEY_SECONDARY='' @ [dq] @ ''s'' @ [dq, nl])
        ''API_KEY'' ''bash''
       = ''export API_KEY'' @ [nl] @ ''export API_KEY_SECONDARY='' @ [dq] @ ''s'' @ [dq, nl]
   \<and> extractEnvVariable
        (''export API_KEY'' @ [nl] @ ''export API_KEY_SECONDARY='' @ [dq] @ ''s'' @ [dq, nl])
        ''API_KEY'' ''bash'' = None"
  by code_simp

end
